theory Spec2Isabelle
  imports Main "HOL-Library.AList" "HOL-Library.Multiset"
begin

section \<open>Durations\<close>

text \<open>
  Go's \<^verbatim>\<open>time.Duration\<close> is a count of nanoseconds held in an \<^verbatim>\<open>int64\<close>. Durations
  are modelled as \<^typ>\<open>int\<close>; where the source's arithmetic can leave the 64-bit range the
  wrap-around is written out with \<open>wrap64\<close> below.
\<close>

type_synonym duration = int

definition Millisecond :: duration where
  "Millisecond = 1000000"

definition Second :: duration where
  "Second = 1000000000"

text \<open>Two's complement wrap-around of 64-bit signed arithmetic.\<close>

definition wrap64 :: "int \<Rightarrow> int" where
  "wrap64 x = (x + 2 ^ 63) mod 2 ^ 64 - 2 ^ 63"

text \<open>The values of an \<^verbatim>\<open>int64\<close>, on which \<open>wrap64\<close> is the identity.\<close>

definition in_int64 :: "int \<Rightarrow> bool" where
  "in_int64 x = (- (2 ^ 63) \<le> x \<and> x < 2 ^ 63)"

text \<open>Go's integer division truncates toward zero.\<close>

definition quot :: "int \<Rightarrow> int \<Rightarrow> int" where
  "quot a b = sgn a * sgn b * (\<bar>a\<bar> div \<bar>b\<bar>)"

text \<open>
  Arithmetic in binary64. \<open>bitlen\<close> is the number of bits of a positive integer, and
  \<open>round53\<close> rounds a non-negative integer to 53 significant bits, ties to even: the
  rounding of one floating-point operation, applied to the numerator of its exact result
  over a fixed power of two.
\<close>

function bitlen :: "int \<Rightarrow> nat" where
  "bitlen n = (if n \<le> 0 then 0 else Suc (bitlen (n div 2)))"
  by pat_completeness auto
termination
  by (relation "measure nat") auto

declare bitlen.simps [simp del]

definition round53 :: "int \<Rightarrow> int" where
  "round53 P =
     (let L = bitlen P
      in if L \<le> 53 then P
         else
           (let sh = L - 53;
                q = P div 2 ^ sh;
                r = P mod 2 ^ sh;
                half = 2 ^ (sh - 1)
            in (if r > half \<or> (r = half \<and> odd q) then q + 1 else q) * 2 ^ sh))"

text \<open>
  \<^verbatim>\<open>int(d.Seconds())\<close> for a duration \<open>d \<ge> 0\<close>. The library computes
  \<^verbatim>\<open>sec := d / Second; nsec := d % Second; return float64(sec) + float64(nsec)/1e9\<close>.
  Both integers convert exactly. The quotient \<open>nsec / 10^9\<close> is rounded once: \<open>frac\<close> is
  its numerator over \<open>2^91\<close>, obtained from the quotient with 90 fractional bits and a
  sticky bit for a remainder. The sum is rounded once more, and the conversion to
  \<^verbatim>\<open>int\<close> truncates.
\<close>

definition seconds_f64 :: "duration \<Rightarrow> int" where
  "seconds_f64 d =
     (let sec = d div Second;
          nsec = d mod Second;
          frac = round53 (2 * (nsec * 2 ^ 90 div Second)
                            + (if nsec * 2 ^ 90 mod Second = 0 then 0 else 1))
      in round53 (sec * 2 ^ 91 + frac) div 2 ^ 91)"

text \<open>
  \<^verbatim>\<open>int(d.Seconds())\<close> for any duration. For a negative duration Go's \<^verbatim>\<open>/\<close> and \<^verbatim>\<open>%\<close>
  give the negated quotient and remainder of \<open>- d\<close>, floating-point rounding is
  symmetric and the conversion truncates toward zero, so the result is the negated
  result for \<open>- d\<close>. A \<^verbatim>\<open>time.Duration\<close> is an \<^verbatim>\<open>int64\<close>; for an argument outside
  that range, which no duration has, the exact quotient stands in.
\<close>

definition seconds_int :: "duration \<Rightarrow> int" where
  "seconds_int d =
     (if 0 \<le> d \<and> d < 2 ^ 63 then seconds_f64 d
      else if - (2 ^ 63) \<le> d \<and> d < 0 then - seconds_f64 (- d)
      else quot d Second)"

section \<open>Metrics\<close>

text \<open>
  \<^verbatim>\<open>type Metrics struct { mu; totalRequests int; wastedReqs int; latencies []time.Duration }\<close>.
  The mutex makes each method body atomic; the model keeps the data fields and runs the
  method bodies one after the other. Go's \<^verbatim>\<open>int\<close> is 64 bits wide on the platforms
  the program runs on, and its arithmetic wraps around.
\<close>

record metrics =
  totalRequests :: int
  wastedReqs :: int
  latencies :: "duration list"

text \<open>The zero value \<^verbatim>\<open>&Metrics{}\<close> that \<^verbatim>\<open>runSimulation\<close> starts from.\<close>

definition zero_metrics :: metrics where
  "zero_metrics = \<lparr>totalRequests = 0, wastedReqs = 0, latencies = []\<rparr>"

definition Record :: "metrics \<Rightarrow> duration \<Rightarrow> int \<Rightarrow> metrics" where
  "Record m latency wasted =
     (let m1 = m\<lparr>totalRequests := wrap64 (totalRequests m + wrap64 (wasted + 1))\<rparr>;
          m2 = m1\<lparr>wastedReqs := wrap64 (wastedReqs m1 + wasted)\<rparr>
      in m2\<lparr>latencies := latencies m2 @ [latency]\<rparr>)"

text \<open>A finite sequence of \<^verbatim>\<open>Record\<close> calls, each given as (latency, wasted).\<close>

fun record_all :: "metrics \<Rightarrow> (duration \<times> int) list \<Rightarrow> metrics" where
  "record_all m [] = m"
| "record_all m (c # cs) = record_all (Record m (fst c) (snd c)) cs"

section \<open>Server\<close>

text \<open>
  \<^verbatim>\<open>type Server struct { mu; capacity int; downFor time.Duration; start time.Time;
  requests map[int]int; accepted map[int]int }\<close>. The two maps are association lists
  from second to count. The field \<^verbatim>\<open>start\<close> only serves to read the elapsed time
  \<^verbatim>\<open>time.Since(s.start)\<close>; the model passes that reading to \<open>Do\<close> as an argument.
  The mutex is held for the whole body of every method, so a run of concurrent calls is
  some sequence of method bodies; the model runs them in that sequence.
\<close>

record server =
  capacity :: int
  downFor :: duration
  requests :: "(int \<times> int) list"
  accepted :: "(int \<times> int) list"

definition NewServer :: "int \<Rightarrow> duration \<Rightarrow> server" where
  "NewServer c d = \<lparr>capacity = c, downFor = d, requests = [], accepted = []\<rparr>"

text \<open>Reading a Go map: an absent key reads as the zero value and is not inserted.\<close>

definition lookup0 :: "(int \<times> int) list \<Rightarrow> int \<Rightarrow> int" where
  "lookup0 m k = (case map_of m k of None \<Rightarrow> 0 | Some v \<Rightarrow> v)"

text \<open>The statement \<^verbatim>\<open>m[k]++\<close> on a map of \<^verbatim>\<open>int\<close> counters.\<close>

definition incr :: "(int \<times> int) list \<Rightarrow> int \<Rightarrow> (int \<times> int) list" where
  "incr m k = AList.update k (wrap64 (lookup0 m k + 1)) m"

text \<open>
  \<^verbatim>\<open>func (s *Server) Do() bool\<close>, with \<open>elapsed\<close> the value of
  \<^verbatim>\<open>time.Since(s.start)\<close> read inside the call. Returns the server after the call and
  the call's result.
\<close>

definition Do :: "server \<Rightarrow> duration \<Rightarrow> server \<times> bool" where
  "Do s elapsed =
     (let sec = seconds_int elapsed;
          s1 = s\<lparr>requests := incr (requests s) sec\<rparr>
      in if elapsed < downFor s1 then (s1, False)
         else if lookup0 (accepted s1) sec \<ge> capacity s1 then (s1, False)
         else (s1\<lparr>accepted := incr (accepted s1) sec\<rparr>, True))"

text \<open>
  A run: the calls of \<open>Do\<close> in the order in which they take the lock, each with the
  elapsed time it reads.
\<close>

fun run :: "server \<Rightarrow> duration list \<Rightarrow> server" where
  "run s [] = s"
| "run s (e # es) = run (fst (Do s e)) es"

text \<open>
  Second \<open>s\<close> is the interval from \<open>s\<close> to \<open>s + 1\<close> seconds of elapsed time; it lies
  entirely within an outage of length \<open>d\<close> when its end is no later than \<open>d\<close>.
\<close>

definition second_within_outage :: "duration \<Rightarrow> int \<Rightarrow> bool" where
  "second_within_outage d s = ((s + 1) * Second \<le> d)"

section \<open>Retry strategies\<close>

text \<open>
  \<^verbatim>\<open>type Strategy func(attempt int, prevDelay time.Duration) time.Duration\<close>, and the
  four functions of that type. Two of them call \<^verbatim>\<open>rand.Int63n\<close>, which panics on an
  argument that is not positive; a panic is a value of the model.
\<close>

datatype panic = Int63n_invalid_argument | Repeat_negative_count | Index_out_of_range

definition baseSleep :: duration where
  "baseSleep = 100 * Millisecond"

definition capSleep :: duration where
  "capSleep = 10 * Second"

definition constantRetry :: "int \<Rightarrow> duration \<Rightarrow> duration" where
  "constantRetry attempt prev = 1 * Millisecond"

text \<open>
  The \<^verbatim>\<open>float64\<close> value \<^verbatim>\<open>float64(baseSleep) * math.Pow(2, float64(attempt))\<close>, truncated
  toward zero: \<open>Some\<close> of the integer when it lies in the \<^verbatim>\<open>int64\<close> range and \<open>None\<close>
  when it does not. The base \<open>10^8 = 5^8 * 2^8\<close> has a 19-bit odd part, so its product
  with a power of two is computed exactly in binary64 until it overflows to \<open>+Inf\<close>, far
  beyond \<open>2^63\<close>; for a negative attempt the product is \<open>10^8 / 2^k\<close>, again exact (or
  zero once the power underflows), and truncates to the integer quotient.
\<close>

definition scaled_base :: "int \<Rightarrow> int option" where
  "scaled_base attempt =
     (if attempt < 0 then Some (baseSleep div 2 ^ nat (- attempt))
      else if baseSleep * 2 ^ nat attempt < 2 ^ 63 then Some (baseSleep * 2 ^ nat attempt)
      else None)"

text \<open>
  The conversion \<^verbatim>\<open>time.Duration(f)\<close> of a \<^verbatim>\<open>float64\<close>. For a value outside the
  \<^verbatim>\<open>int64\<close> range the Go specification leaves the result to the implementation; \<open>ovf\<close>
  is that result. On amd64 the conversion instruction yields \<open>-2^63\<close>; on arm64 it
  saturates to \<open>2^63 - 1\<close>.
\<close>

definition to_duration :: "int \<Rightarrow> int option \<Rightarrow> duration" where
  "to_duration ovf x = (case x of Some v \<Rightarrow> v | None \<Rightarrow> ovf)"

definition amd64_ovf :: int where
  "amd64_ovf = - (2 ^ 63)"

definition exponentialBackoff :: "int \<Rightarrow> int \<Rightarrow> duration \<Rightarrow> duration" where
  "exponentialBackoff ovf attempt prev =
     (let d = to_duration ovf (scaled_base attempt)
      in if d > capSleep then capSleep else d)"

text \<open>
  \<^verbatim>\<open>rand.Int63n(n)\<close> panics when \<open>n \<le> 0\<close>. Otherwise it draws 63-bit values from the
  source until one is accepted and returns that draw modulo \<open>n\<close> (for a power of two,
  the first draw masked with \<open>n - 1\<close>, which is the same number). \<open>r\<close> is the accepted
  draw.
\<close>

definition Int63n :: "int \<Rightarrow> int \<Rightarrow> panic + int" where
  "Int63n r n = (if n \<le> 0 then Inl Int63n_invalid_argument else Inr (r mod n))"

definition fullJitter :: "int \<Rightarrow> int \<Rightarrow> int \<Rightarrow> duration \<Rightarrow> panic + duration" where
  "fullJitter ovf r attempt prev =
     (let d = to_duration ovf (scaled_base attempt);
          d1 = (if d > capSleep then capSleep else d)
      in Int63n r d1)"

definition decorrelatedJitter :: "int \<Rightarrow> int \<Rightarrow> duration \<Rightarrow> panic + duration" where
  "decorrelatedJitter r attempt prev =
     (let prev1 = (if prev < baseSleep then baseSleep else prev)
      in case Int63n r (wrap64 (wrap64 (prev1 * 3) - baseSleep)) of
           Inl p \<Rightarrow> Inl p
         | Inr v \<Rightarrow>
             (let d = wrap64 (v + baseSleep)
              in Inr (if d > capSleep then capSleep else d)))"

text \<open>
  The specification's wording of the decorrelated strategy:
  \<open>clamp(uniform(base, max(previousDelay, base) * 3), base, cap)\<close>. A draw \<open>r\<close> of the
  random source selects the value \<open>lo + r mod (hi - lo)\<close> of the range from \<open>lo\<close> up to,
  not including, \<open>hi\<close>.
\<close>

definition clamp :: "int \<Rightarrow> int \<Rightarrow> int \<Rightarrow> int" where
  "clamp u lo hi = max lo (min hi u)"

definition uniform :: "int \<Rightarrow> int \<Rightarrow> int \<Rightarrow> int" where
  "uniform r lo hi = lo + r mod (hi - lo)"

definition decorrelated_spec :: "int \<Rightarrow> duration \<Rightarrow> duration" where
  "decorrelated_spec r prev =
     clamp (uniform r baseSleep (max prev baseSleep * 3)) baseSleep capSleep"

section \<open>Reporting\<close>

text \<open>
  \<^verbatim>\<open>printHistogram\<close> and \<^verbatim>\<open>printSummary\<close> write text. The model returns what they
  compute before formatting: the rows of the bar chart and the statistics of the summary.
  Each function also returns the state it leaves behind, so that what it changes is
  visible.
\<close>

text \<open>
  A string is the list of its runes, each rune its code point. The bar is built from the
  string literal of the source, which holds the three runes U+00E2, U+2013 and U+02C6,
  from spaces, and from the capacity marker \<^verbatim>\<open>|\<close>.
\<close>

type_synonym rune = nat

definition block :: "rune list" where
  "block = [226, 8211, 710]"

definition blank :: "rune list" where
  "blank = [32]"

definition marker :: rune where
  "marker = 124"

record hist_row =
  row_sec :: int
  row_down :: bool
  row_bar :: "rune list"
  row_count :: int

datatype histogram = NoData | Rows int "hist_row list"

text \<open>\<^verbatim>\<open>strings.Repeat\<close> panics on a negative count.\<close>

definition Repeat :: "rune list \<Rightarrow> int \<Rightarrow> panic + rune list" where
  "Repeat s n =
     (if n < 0 then Inl Repeat_negative_count else Inr (concat (replicate (nat n) s)))"

text \<open>The assignment \<^verbatim>\<open>runes[i] = c\<close>, which panics when the index is out of range.\<close>

definition set_rune :: "rune list \<Rightarrow> int \<Rightarrow> rune \<Rightarrow> panic + rune list" where
  "set_rune runes i c =
     (if i < 0 \<or> int (length runes) \<le> i then Inl Index_out_of_range
      else Inr (runes[nat i := c]))"

definition barWidth :: int where
  "barWidth = 60"

text \<open>
  The first loop of \<^verbatim>\<open>printHistogram\<close>: the largest second and the largest count among
  the entries of the map, both starting from 0. The result does not depend on the order
  in which the map is traversed.
\<close>

definition max_scan :: "(int \<times> int) list \<Rightarrow> int \<times> int" where
  "max_scan m =
     fold (\<lambda>(s, c) (maxSec, maxCount).
             (if s > maxSec then s else maxSec, if c > maxCount then c else maxCount))
          m (0, 0)"

text \<open>The body of the second loop: the row printed for second \<open>s\<close>.\<close>

definition hist_line :: "server \<Rightarrow> int \<Rightarrow> int \<Rightarrow> int \<Rightarrow> panic + hist_row" where
  "hist_line srv maxCount capMark s =
     (let cnt = lookup0 (requests srv) s;
          w = (if maxCount > 0 then quot (wrap64 (cnt * barWidth)) maxCount else 0)
      in case Repeat block w of
           Inl p \<Rightarrow> Inl p
         | Inr bar \<Rightarrow>
             (case (if w < barWidth then Repeat blank (wrap64 (barWidth - w)) else Inr []) of
                Inl p \<Rightarrow> Inl p
              | Inr pad \<Rightarrow>
                  (case (if capMark < barWidth then set_rune (bar @ pad) capMark marker
                         else Inr (bar @ pad)) of
                     Inl p \<Rightarrow> Inl p
                   | Inr bar1 \<Rightarrow>
                       Inr \<lparr>row_sec = s, row_down = (s < seconds_int (downFor srv)),
                            row_bar = bar1, row_count = cnt\<rparr>)))"

function hist_loop :: "server \<Rightarrow> int \<Rightarrow> int \<Rightarrow> int \<Rightarrow> int \<Rightarrow> panic + hist_row list" where
  "hist_loop srv maxSec maxCount capMark s =
     (if s \<le> maxSec then
        (case hist_line srv maxCount capMark s of
           Inl p \<Rightarrow> Inl p
         | Inr row \<Rightarrow>
             (case hist_loop srv maxSec maxCount capMark (s + 1) of
                Inl p \<Rightarrow> Inl p
              | Inr rows \<Rightarrow> Inr (row # rows)))
      else Inr [])"
  by pat_completeness auto
termination
  by (relation "measure (\<lambda>(srv, maxSec, maxCount, capMark, s). nat (maxSec + 1 - s))") auto

declare hist_loop.simps [simp del]

definition printHistogram :: "server \<Rightarrow> (panic + histogram) \<times> server" where
  "printHistogram srv =
     (if length (requests srv) = 0 then (Inr NoData, srv)
      else
        (let (maxSec, maxCount) = max_scan (requests srv);
             capMark = (if maxCount > 0
                        then (let c = quot (wrap64 (capacity srv * barWidth)) maxCount
                              in if c > barWidth then barWidth else c)
                        else 0)
         in case hist_loop srv maxSec maxCount capMark 0 of
              Inl p \<Rightarrow> (Inl p, srv)
            | Inr rows \<Rightarrow> (Inr (Rows (capacity srv) rows), srv)))"

text \<open>
  The first loop of \<^verbatim>\<open>printSummary\<close>, from second \<open>s\<close> on: it stops at the first second
  of the window with requests and no rejection, and keeps \<open>recoveryTime\<close> when there is
  none. The difference \<open>rejected\<close> is only compared with zero; for two counts of the
  \<^verbatim>\<open>int\<close> range the wrapped difference is zero exactly when the difference is.
\<close>

function recovery_loop :: "server \<Rightarrow> int \<Rightarrow> int \<Rightarrow> int \<Rightarrow> int" where
  "recovery_loop srv downSec recoveryTime s =
     (if s < downSec + 60 then
        (let rejected = lookup0 (requests srv) s - lookup0 (accepted srv) s
         in if lookup0 (requests srv) s > 0 \<and> rejected = 0 then s - downSec
            else recovery_loop srv downSec recoveryTime (s + 1))
      else recoveryTime)"
  by pat_completeness auto
termination
  by (relation "measure (\<lambda>(srv, downSec, recoveryTime, s). nat (downSec + 60 - s))") auto

declare recovery_loop.simps [simp del]

text \<open>The second loop of \<^verbatim>\<open>printSummary\<close>, from second \<open>s\<close> on.\<close>

function overshoot_loop :: "server \<Rightarrow> int \<Rightarrow> int \<Rightarrow> int \<Rightarrow> int" where
  "overshoot_loop srv downSec peakOvershoot s =
     (if s < downSec + 60 then
        (let over = wrap64 (lookup0 (requests srv) s - capacity srv)
         in overshoot_loop srv downSec (if over > peakOvershoot then over else peakOvershoot)
              (s + 1))
      else peakOvershoot)"
  by pat_completeness auto
termination
  by (relation "measure (\<lambda>(srv, downSec, peakOvershoot, s). nat (downSec + 60 - s))") auto

declare overshoot_loop.simps [simp del]

text \<open>
  The index \<^verbatim>\<open>int(float64(n) * 0.99)\<close> is computed in binary64. The constant \<open>0.99\<close>
  is the double \<open>8917127262193582 / 2^53\<close>, and \<open>float64(n)\<close> is exact for a length
  \<open>n\<close>. The product of the two is rounded to 53 significant bits, ties to even, and the
  conversion truncates it: \<open>round53\<close> of the numerator \<open>n * 8917127262193582\<close> is the
  numerator of the rounded product over \<open>2^53\<close>.
\<close>

definition f64_099 :: int where
  "f64_099 = 8917127262193582"

definition p99_index :: "int \<Rightarrow> int" where
  "p99_index n = round53 (n * f64_099) div 2 ^ 53"

text \<open>
  \<^verbatim>\<open>Duration.Round(m)\<close>, with which the summary prints the p99 latency: the nearest
  multiple of \<open>m\<close>, halves away from zero. Go's remainder \<^verbatim>\<open>%\<close> has the sign of the
  dividend; \<^verbatim>\<open>lessThanHalf\<close> compares in unsigned arithmetic, which for the non-negative
  remainders it is given is the plain comparison.
\<close>

definition rem :: "int \<Rightarrow> int \<Rightarrow> int" where
  "rem a b = a - quot a b * b"

definition lessThanHalf :: "duration \<Rightarrow> duration \<Rightarrow> bool" where
  "lessThanHalf x y = (x + x < y)"

definition minDuration :: duration where
  "minDuration = - (2 ^ 63)"

definition maxDuration :: duration where
  "maxDuration = 2 ^ 63 - 1"

definition Round :: "duration \<Rightarrow> duration \<Rightarrow> duration" where
  "Round d m =
     (if m \<le> 0 then d
      else
        (let r = rem d m
         in if d < 0 then
              (let r1 = - r
               in if lessThanHalf r1 m then wrap64 (d + r1)
                  else (let d1 = wrap64 (d - m + r1)
                        in if d1 < d then d1 else minDuration))
            else if lessThanHalf r m then wrap64 (d - r)
            else (let d1 = wrap64 (d + m - r)
                  in if d1 > d then d1 else maxDuration)))"

text \<open>
  The line \<^verbatim>\<open>Time to stable\<close> of the summary: a number of seconds, or \<^verbatim>\<open>>60s\<close>.
\<close>

datatype stable_line = Stable int | Over60

record summary =
  time_to_stable :: stable_line
  peak_overshoot :: int
  total_requests :: int
  wasted_requests :: int
  clients_served :: nat
  p99_latency :: duration
  p99_shown :: duration

text \<open>
  \<^verbatim>\<open>sort.Slice(metrics.latencies, ...)\<close> sorts the slice held by the \<^verbatim>\<open>Metrics\<close> value
  in place, in ascending order. The field \<open>p99_latency\<close> is the variable \<^verbatim>\<open>p99\<close>, and
  \<open>p99_shown\<close> is \<^verbatim>\<open>p99.Round(time.Millisecond)\<close>, the duration that is printed.
\<close>

definition printSummary :: "server \<Rightarrow> metrics \<Rightarrow> summary \<times> server \<times> metrics" where
  "printSummary srv metrics =
     (let downSec = seconds_int (downFor srv);
          recoveryTime = recovery_loop srv downSec (- 1) downSec;
          peakOvershoot = overshoot_loop srv downSec 0 downSec;
          metrics1 = metrics\<lparr>latencies := sort (latencies metrics)\<rparr>;
          n = int (length (latencies metrics1));
          p99 = (if n > 0 then
                   (let idx = p99_index n;
                        idx1 = (if idx \<ge> n then n - 1 else idx)
                    in latencies metrics1 ! nat idx1)
                 else 0)
      in (\<lparr>time_to_stable = (if recoveryTime \<ge> 0 then Stable recoveryTime else Over60),
           peak_overshoot = peakOvershoot,
           total_requests = totalRequests metrics1,
           wasted_requests = wastedReqs metrics1,
           clients_served = length (latencies metrics1),
           p99_latency = p99,
           p99_shown = Round p99 Millisecond\<rparr>, srv, metrics1))"

text \<open>
  The end of \<^verbatim>\<open>main\<close>: the histogram, then the summary. A panic in the first ends the
  program before the second runs.
\<close>

definition report ::
  "server \<Rightarrow> metrics \<Rightarrow> (panic + histogram \<times> summary) \<times> server \<times> metrics" where
  "report srv metrics =
     (case printHistogram srv of
        (Inl p, srv1) \<Rightarrow> (Inl p, srv1, metrics)
      | (Inr h, srv1) \<Rightarrow>
          (let (sm, srv2, metrics2) = printSummary srv1 metrics
           in (Inr (h, sm), srv2, metrics2)))"

text \<open>
  A second with at least one request and no rejection, as the summary's first loop
  tests it.
\<close>

definition stable_at :: "server \<Rightarrow> int \<Rightarrow> bool" where
  "stable_at srv s =
     (lookup0 (requests srv) s > 0 \<and> lookup0 (requests srv) s = lookup0 (accepted srv) s)"

text \<open>
  The latency collection \<open>{1, 2, ..., 100}\<close> of the specification's example, in the unit
  \<open>u\<close>.
\<close>

definition one_to_hundred :: "duration \<Rightarrow> duration list" where
  "one_to_hundred u = map (\<lambda>i. i * u) [1..100]"

section \<open>Invariants of a run\<close>

text \<open>Two invariants of a run, each kept by every call of \<open>Do\<close>.\<close>

definition cap_inv :: "server \<Rightarrow> bool" where
  "cap_inv s =
     (\<forall>k. - (2 ^ 63) \<le> lookup0 (accepted s) k \<and> lookup0 (accepted s) k \<le> capacity s)"

definition outage_inv :: "server \<Rightarrow> bool" where
  "outage_inv s = (\<forall>k. second_within_outage (downFor s) k \<longrightarrow> lookup0 (accepted s) k = 0)"

section \<open>Properties of the arithmetic\<close>

lemma wrap64_id: "- (2 ^ 63) \<le> x \<Longrightarrow> x < 2 ^ 63 \<Longrightarrow> wrap64 x = x"
  by (simp add: wrap64_def)


lemma wrap64_range: "- (2 ^ 63) \<le> wrap64 x \<and> wrap64 x < 2 ^ 63"
  by (simp add: wrap64_def)

lemma wrap64_le: "- (2 ^ 63) \<le> x \<Longrightarrow> wrap64 x \<le> x"
proof -
  assume "- (2 ^ 63) \<le> x"
  then have "0 \<le> x + 2 ^ 63" by simp
  then have "(x + 2 ^ 63) mod 2 ^ 64 \<le> x + 2 ^ 63"
    by (rule zmod_le_nonneg_dividend)
  then show ?thesis by (simp add: wrap64_def)
qed

lemma wrap64_shift: "wrap64 (x + 2 ^ 64 * k) = wrap64 x"
proof -
  have "(x + 2 ^ 64 * k + 2 ^ 63) mod 2 ^ 64 = (x + 2 ^ 63 + k * 2 ^ 64) mod 2 ^ 64"
    by (simp add: algebra_simps)
  also have "\<dots> = (x + 2 ^ 63) mod 2 ^ 64"
    by (rule mod_mult_self1)
  finally show ?thesis unfolding wrap64_def by simp
qed

lemma wrap64_diff: "\<exists>k. wrap64 x = x + 2 ^ 64 * k"
proof -
  define q where "q = (x + 2 ^ 63) div 2 ^ 64"
  define m where "m = (x + 2 ^ 63) mod 2 ^ 64"
  have "x + 2 ^ 63 = q * 2 ^ 64 + m"
    unfolding q_def m_def by (rule div_mult_mod_eq [symmetric])
  then have "m - 2 ^ 63 = x + 2 ^ 64 * (- q)" by simp
  then show ?thesis unfolding wrap64_def m_def ..
qed

lemma wrap64_add_wrap64: "wrap64 (a + wrap64 b) = wrap64 (a + b)"
proof -
  obtain k where "wrap64 b = b + 2 ^ 64 * k" using wrap64_diff by blast
  then have "a + wrap64 b = (a + b) + 2 ^ 64 * k" by simp
  then show ?thesis by (simp only: wrap64_shift)
qed

lemma wrap64_unique:
  assumes "- (2 ^ 63) \<le> y" and "y < 2 ^ 63" and "y = x + 2 ^ 64 * k"
  shows "y = wrap64 x"
proof -
  have "wrap64 x = wrap64 (x + 2 ^ 64 * k)" by (simp only: wrap64_shift)
  also have "\<dots> = wrap64 y" by (simp only: assms(3))
  also have "\<dots> = y" using assms(1,2) by (rule wrap64_id)
  finally show ?thesis by simp
qed

lemma quot_nonneg: "0 \<le> a \<Longrightarrow> 0 < b \<Longrightarrow> quot a b = a div b"
  by (cases "a = 0") (simp_all add: quot_def)

lemma quot_neg: "a < 0 \<Longrightarrow> 0 < b \<Longrightarrow> quot a b = - ((- a) div b)"
  by (simp add: quot_def)

lemma quot_upper:
  assumes "0 < b"
  shows "a < (quot a b + 1) * b"
proof (cases "0 \<le> a")
  case True
  have "a = a div b * b + a mod b" by simp
  moreover have "a mod b < b" using assms by simp
  ultimately have "a < a div b * b + b" by linarith
  then show ?thesis using True assms by (simp add: quot_nonneg algebra_simps)
next
  case False
  have "(- a) div b * b \<le> - a"
    using assms by (metis div_mult_mod_eq add_increasing2 pos_mod_sign order_refl)
  then have "a < (1 - (- a) div b) * b" using assms by (simp add: algebra_simps)
  then show ?thesis using False assms by (simp add: quot_neg)
qed

text \<open>
  Rounding to 53 bits stays between any two neighbours that are themselves representable,
  and moves the number by at most half a unit in the last place.
\<close>

lemma bitlen_bounds:
  "0 < P \<Longrightarrow> 2 ^ bitlen P \<le> 2 * P \<and> P < 2 ^ bitlen P"
proof (induction P rule: bitlen.induct)
  case (1 n)
  have b: "bitlen n = Suc (bitlen (n div 2))"
    using "1.prems" by (subst bitlen.simps) simp
  show ?case
  proof (cases "n div 2 \<le> 0")
    case True
    with "1.prems" have "n = 1" by linarith
    then show ?thesis by (simp add: bitlen.simps)
  next
    case False
    then have pos: "0 < n div 2" by simp
    have IH: "2 ^ bitlen (n div 2) \<le> 2 * (n div 2) \<and> n div 2 < 2 ^ bitlen (n div 2)"
      using "1.IH" "1.prems" pos by simp
    have "2 * (n div 2) \<le> n" "n < 2 * (n div 2) + 2" by linarith+
    with IH show ?thesis by (simp add: b)
  qed
qed

lemma bitlen_le:
  assumes "0 \<le> P" and "P < 2 ^ n"
  shows "bitlen P \<le> n"
proof (cases "P = 0")
  case True
  then show ?thesis by (simp add: bitlen.simps)
next
  case False
  then have "0 < P" using assms by simp
  then have "2 ^ bitlen P \<le> 2 * P" by (simp add: bitlen_bounds)
  also have "\<dots> < 2 * 2 ^ n" using assms by simp
  finally have "(2::int) ^ bitlen P < 2 ^ Suc n" by simp
  then have "bitlen P < Suc n" by (rule power_less_imp_less_exp [rotated]) simp
  then show ?thesis by simp
qed

lemma round53_cases:
  assumes "0 \<le> P" and "P < 2 ^ (53 + j)"
  obtains "round53 P = P"
  | sh q r where "sh \<le> j" "1 \<le> sh" "P = q * 2 ^ sh + r" "0 \<le> r" "r < 2 ^ sh"
      "round53 P = (if r > 2 ^ (sh - 1) \<or> (r = 2 ^ (sh - 1) \<and> odd q) then q + 1 else q) * 2 ^ sh"
proof (cases "bitlen P \<le> 53")
  case True
  then have "round53 P = P" by (simp add: round53_def)
  then show ?thesis by (rule that(1))
next
  case False
  define sh where "sh = bitlen P - 53"
  have "bitlen P \<le> 53 + j" using assms by (rule bitlen_le)
  then have 1: "sh \<le> j" and 2: "1 \<le> sh" using False by (simp_all add: sh_def)
  define q where "q = P div 2 ^ sh"
  define r where "r = P mod 2 ^ sh"
  have 3: "P = q * 2 ^ sh + r" unfolding q_def r_def by (rule div_mult_mod_eq [symmetric])
  have 4: "0 \<le> r" "r < 2 ^ sh" by (simp_all add: r_def)
  have 5: "round53 P = (if r > 2 ^ (sh - 1) \<or> (r = 2 ^ (sh - 1) \<and> odd q) then q + 1 else q) * 2 ^ sh"
    unfolding q_def r_def using False by (simp add: round53_def Let_def sh_def)
  show ?thesis using 1 2 3 4 5 by (rule that(2))
qed

lemma round53_lower:
  assumes "0 \<le> P" and "P < 2 ^ (53 + j)" and "2 ^ j dvd T" and "T \<le> P"
  shows "T \<le> round53 P"
  using assms(1,2)
proof (cases rule: round53_cases)
  case 1
  then show ?thesis using assms(4) by simp
next
  case (2 sh q r)
  have "(2::int) ^ sh dvd 2 ^ j" using \<open>sh \<le> j\<close> by (rule le_imp_power_dvd)
  then have "2 ^ sh dvd T" using assms(3) by (rule dvd_trans)
  then obtain t where T: "T = t * 2 ^ sh" by (auto simp: dvd_def mult.commute)
  have "t * 2 ^ sh < (q + 1) * 2 ^ sh"
    using assms(4) 2(3,5) by (simp add: T algebra_simps)
  then have "t < q + 1" by (simp add: mult_less_cancel_right)
  then have "t \<le> (if r > 2 ^ (sh - 1) \<or> (r = 2 ^ (sh - 1) \<and> odd q) then q + 1 else q)"
    by simp
  then have "t * 2 ^ sh \<le> (if r > 2 ^ (sh - 1) \<or> (r = 2 ^ (sh - 1) \<and> odd q) then q + 1 else q) * 2 ^ sh"
    by (intro mult_right_mono) simp_all
  then show ?thesis by (simp only: T 2(6))
qed

lemma round53_upper:
  assumes "0 \<le> P" and "P < 2 ^ (53 + j)" and "2 ^ j dvd T" and "P \<le> T"
  shows "round53 P \<le> T"
  using assms(1,2)
proof (cases rule: round53_cases)
  case 1
  then show ?thesis using assms(4) by simp
next
  case (2 sh q r)
  have "(2::int) ^ sh dvd 2 ^ j" using \<open>sh \<le> j\<close> by (rule le_imp_power_dvd)
  then have "2 ^ sh dvd T" using assms(3) by (rule dvd_trans)
  then obtain t where T: "T = t * 2 ^ sh" by (auto simp: dvd_def mult.commute)
  have half: "(2::int) ^ sh = 2 * 2 ^ (sh - 1)"
    using \<open>1 \<le> sh\<close> by (simp add: power_eq_if)
  have le: "q * 2 ^ sh + r \<le> t * 2 ^ sh" using assms(4) 2(3) by (simp add: T)
  have "(if r > 2 ^ (sh - 1) \<or> (r = 2 ^ (sh - 1) \<and> odd q) then q + 1 else q) \<le> t"
  proof (cases "r = 0")
    case True
    then have "q * 2 ^ sh \<le> t * 2 ^ sh" using le by simp
    then have "q \<le> t" by (simp add: mult_le_cancel_right)
    then show ?thesis using True by simp
  next
    case False
    then have "q * 2 ^ sh < t * 2 ^ sh" using le 2(4) by linarith
    then have "q < t" by (simp add: mult_less_cancel_right)
    then show ?thesis by simp
  qed
  then have "(if r > 2 ^ (sh - 1) \<or> (r = 2 ^ (sh - 1) \<and> odd q) then q + 1 else q) * 2 ^ sh \<le> t * 2 ^ sh"
    by (intro mult_right_mono) simp_all
  then show ?thesis by (simp only: T 2(6))
qed

lemma round53_error:
  assumes "0 \<le> P" and "P < 2 ^ (53 + j)" and "1 \<le> j"
  shows "round53 P \<le> P + 2 ^ (j - 1)"
  using assms(1,2)
proof (cases rule: round53_cases)
  case 1
  then show ?thesis by simp
next
  case (2 sh q r)
  have half: "(2::int) ^ sh = 2 * 2 ^ (sh - 1)"
    using \<open>1 \<le> sh\<close> by (simp add: power_eq_if)
  have "sh - 1 \<le> j - 1" using \<open>sh \<le> j\<close> by simp
  then have hj: "(2::int) ^ (sh - 1) \<le> 2 ^ (j - 1)" by (intro power_increasing) simp_all
  have "round53 P \<le> P + 2 ^ (sh - 1)"
  proof (cases "r > 2 ^ (sh - 1) \<or> (r = 2 ^ (sh - 1) \<and> odd q)")
    case True
    then have "round53 P = q * 2 ^ sh + 2 ^ sh" by (simp add: 2(6) algebra_simps)
    moreover have "2 ^ (sh - 1) \<le> r" using True by auto
    ultimately show ?thesis using 2(3) half by simp
  next
    case False
    then have "round53 P = q * 2 ^ sh" by (simp add: 2(6))
    then show ?thesis using 2(3,4) by simp
  qed
  then show ?thesis using hj by linarith
qed

text \<open>
  The seconds of a duration: the computed value is the whole number of seconds or the
  next one, and it is the whole number of seconds for every duration below \<open>2^24\<close>
  seconds.
\<close>

lemma seconds_f64_parts:
  assumes "0 \<le> d"
  defines "nsec \<equiv> d mod Second"
  defines "X \<equiv> 2 * (nsec * 2 ^ 90 div Second) + (if nsec * 2 ^ 90 mod Second = 0 then 0 else 1)"
  shows "0 \<le> X" and "X < 2 ^ 91" and "0 \<le> round53 X" and "round53 X \<le> 2 ^ 91"
    and "X \<le> 2475880076094880471227487899"
proof -
  have n: "0 \<le> nsec" "nsec \<le> 999999999" by (simp_all add: nsec_def Second_def)
  have q0: "0 \<le> nsec * 2 ^ 90 div Second"
    using n(1) by (simp add: Second_def pos_imp_zdiv_nonneg_iff)
  have "nsec * 2 ^ 90 div Second \<le> 999999999 * 2 ^ 90 div Second"
    using n(2) by (intro zdiv_mono1) (simp_all add: Second_def)
  also have "\<dots> = 1237940038047440235613743949" by (simp add: Second_def)
  finally have q1: "nsec * 2 ^ 90 div Second \<le> 1237940038047440235613743949" .
  show x0: "0 \<le> X" using q0 by (simp add: X_def)
  show xm: "X \<le> 2475880076094880471227487899" using q1 by (simp add: X_def)
  then show x1: "X < 2 ^ 91" by simp
  show "0 \<le> round53 X"
    by (rule round53_lower [where j = 38]) (use x0 x1 in simp_all)
  show "round53 X \<le> 2 ^ 91"
    by (rule round53_upper [where j = 38]) (use x0 x1 in simp_all)
qed

lemma seconds_f64_bounds:
  assumes "0 \<le> d" and "d \<le> 2 ^ 63"
  shows "d div Second \<le> seconds_f64 d" and "seconds_f64 d \<le> d div Second + 1"
    and "d mod Second = 0 \<Longrightarrow> seconds_f64 d = d div Second"
proof -
  define sec where "sec = d div Second"
  define nsec where "nsec = d mod Second"
  define X where
    "X = 2 * (nsec * 2 ^ 90 div Second) + (if nsec * 2 ^ 90 mod Second = 0 then 0 else 1)"
  define Y where "Y = sec * 2 ^ 91 + round53 X"
  have s: "seconds_f64 d = round53 Y div 2 ^ 91"
    by (simp add: seconds_f64_def Let_def Y_def X_def nsec_def sec_def)
  have A: "0 \<le> round53 X" "round53 X \<le> 2 ^ 91"
    unfolding X_def nsec_def using seconds_f64_parts [OF assms(1)] by simp_all
  have sec0: "0 \<le> sec" using assms(1) by (simp add: sec_def Second_def pos_imp_zdiv_nonneg_iff)
  have "sec \<le> 2 ^ 63 div Second"
    unfolding sec_def using assms(2) by (intro zdiv_mono1) (simp_all add: Second_def)
  then have sec1: "sec \<le> 9223372036" by (simp add: Second_def)
  have Y0: "0 \<le> Y" using sec0 A(1) by (simp add: Y_def)
  have Ylo: "sec * 2 ^ 91 \<le> Y" using A(1) by (simp add: Y_def)
  have Yhi: "Y \<le> (sec + 1) * 2 ^ 91" using A(2) by (simp add: Y_def algebra_simps)
  have "(sec + 1) * 2 ^ 91 \<le> 9223372037 * (2::int) ^ 91" using sec1 by simp
  also have "\<dots> < 2 ^ (53 + 73)" by simp
  finally have Y1: "Y < 2 ^ (53 + 73)" using Yhi by simp
  have d1: "(2::int) ^ 73 dvd sec * 2 ^ 91"
    by (rule dvd_mult) (rule le_imp_power_dvd, simp)
  have d2: "(2::int) ^ 73 dvd (sec + 1) * 2 ^ 91"
    by (rule dvd_mult) (rule le_imp_power_dvd, simp)
  have lo: "sec * 2 ^ 91 \<le> round53 Y"
    using Y0 Y1 d1 Ylo by (rule round53_lower)
  have hi: "round53 Y \<le> (sec + 1) * 2 ^ 91"
    using Y0 Y1 d2 Yhi by (rule round53_upper)
  have "sec = sec * 2 ^ 91 div 2 ^ 91" by simp
  also have "\<dots> \<le> round53 Y div 2 ^ 91" using lo by (intro zdiv_mono1) simp_all
  finally show "d div Second \<le> seconds_f64 d" by (simp add: s sec_def)
  have "round53 Y div 2 ^ 91 \<le> (sec + 1) * 2 ^ 91 div 2 ^ 91"
    using hi by (intro zdiv_mono1) simp_all
  then show "seconds_f64 d \<le> d div Second + 1" by (simp add: s sec_def)
  show "seconds_f64 d = d div Second" if "d mod Second = 0"
  proof -
    have "X = 0" using that by (simp add: X_def nsec_def)
    then have "round53 X = 0" by (simp add: round53_def bitlen.simps)
    then have Y: "Y = sec * 2 ^ 91" by (simp add: Y_def)
    have "round53 Y \<le> sec * 2 ^ 91"
      using Y0 Y1 d1 by (rule round53_upper) (simp add: Y)
    with lo have "round53 Y = sec * 2 ^ 91" by simp
    then show ?thesis by (simp add: s sec_def)
  qed
qed

lemma seconds_f64_small:
  assumes "0 \<le> d" and "d < 2 ^ 24 * Second"
  shows "seconds_f64 d = d div Second"
proof -
  define sec where "sec = d div Second"
  define nsec where "nsec = d mod Second"
  define X where
    "X = 2 * (nsec * 2 ^ 90 div Second) + (if nsec * 2 ^ 90 mod Second = 0 then 0 else 1)"
  define Y where "Y = sec * 2 ^ 91 + round53 X"
  have s: "seconds_f64 d = round53 Y div 2 ^ 91"
    by (simp add: seconds_f64_def Let_def Y_def X_def nsec_def sec_def)
  have X: "0 \<le> X" "X < 2 ^ 91" "0 \<le> round53 X" "X \<le> 2475880076094880471227487899"
    unfolding X_def nsec_def using seconds_f64_parts [OF assms(1)] by simp_all
  have "round53 X \<le> X + 2 ^ (38 - 1)"
    by (rule round53_error) (use X in simp_all)
  then have A1: "round53 X \<le> 2475880076094880471227487899 + 2 ^ 37" using X(4) by simp
  have sec0: "0 \<le> sec" using assms(1) by (simp add: sec_def Second_def pos_imp_zdiv_nonneg_iff)
  have "d div Second \<le> (2 ^ 24 * Second - 1) div Second"
    using assms(2) by (intro zdiv_mono1) (simp_all add: Second_def)
  also have "\<dots> = 2 ^ 24 - 1" by (simp add: Second_def)
  finally have sec1: "sec + 1 \<le> 2 ^ 24" by (simp add: sec_def)
  have Y0: "0 \<le> Y" using sec0 X(3) by (simp add: Y_def)
  have Ylo: "sec * 2 ^ 91 \<le> Y" using X(3) by (simp add: Y_def)
  have "Y < (sec + 1) * 2 ^ 91" using A1 by (simp add: Y_def algebra_simps)
  also have "\<dots> \<le> 2 ^ 24 * 2 ^ 91" using sec1 by (intro mult_right_mono) simp_all
  finally have Y1: "Y < 2 ^ (53 + 62)" by simp
  have d1: "(2::int) ^ 62 dvd sec * 2 ^ 91"
    by (rule dvd_mult) (rule le_imp_power_dvd, simp)
  have lo: "sec * 2 ^ 91 \<le> round53 Y"
    using Y0 Y1 d1 Ylo by (rule round53_lower)
  have "round53 Y \<le> Y + 2 ^ (62 - 1)"
    using Y0 Y1 by (rule round53_error) simp
  then have hi: "round53 Y < (sec + 1) * 2 ^ 91"
    using A1 by (simp add: Y_def algebra_simps)
  have "round53 Y div 2 ^ 91 = sec"
  proof (rule int_div_pos_eq)
    show "round53 Y = 2 ^ 91 * sec + (round53 Y - sec * 2 ^ 91)" by simp
    show "0 \<le> round53 Y - sec * 2 ^ 91" using lo by simp
    show "round53 Y - sec * 2 ^ 91 < 2 ^ 91" using hi by (simp add: algebra_simps)
  qed
  then show ?thesis by (simp add: s sec_def)
qed

lemma seconds_int_small:
  "0 \<le> d \<Longrightarrow> d < 16777216000000000 \<Longrightarrow> seconds_int d = d div 1000000000"
  using seconds_f64_small [of d] by (simp add: seconds_int_def Second_def)

lemma seconds_int_upper: "e < (seconds_int e + 1) * Second"
proof -
  consider "0 \<le> e \<and> e < 2 ^ 63" | "- (2 ^ 63) \<le> e \<and> e < 0" | "e < - (2 ^ 63) \<or> 2 ^ 63 \<le> e"
    by linarith
  then show ?thesis
  proof cases
    case 1
    have "e = e div Second * Second + e mod Second" by simp
    moreover have "e mod Second < Second" by (simp add: Second_def)
    ultimately have "e < e div Second * Second + Second" by linarith
    then have "e < (e div Second + 1) * Second" by (simp add: algebra_simps)
    also have "\<dots> \<le> (seconds_f64 e + 1) * Second"
      using seconds_f64_bounds(1) [of e] 1 by (intro mult_right_mono) (simp_all add: Second_def)
    finally show ?thesis using 1 by (simp add: seconds_int_def)
  next
    case 2
    define a where "a = - e"
    have a: "0 \<le> a" "a \<le> 2 ^ 63" using 2 by (simp_all add: a_def)
    have ub: "seconds_f64 a \<le> a div Second + 1" using a by (rule seconds_f64_bounds(2))
    have dm: "a = a div Second * Second + a mod Second" by simp
    have m0: "0 \<le> a mod Second" by (simp add: Second_def)
    have "(seconds_f64 a - 1) * Second < a"
    proof (cases "a mod Second = 0")
      case True
      then have "seconds_f64 a = a div Second"
        using a by (intro seconds_f64_bounds(3))
      moreover have "a div Second * Second = a" using True dm by simp
      ultimately show ?thesis by (simp add: algebra_simps Second_def)
    next
      case False
      have "(seconds_f64 a - 1) * Second \<le> a div Second * Second"
        using ub by (intro mult_right_mono) (simp_all add: Second_def)
      also have "\<dots> < a" using False m0 dm by linarith
      finally show ?thesis .
    qed
    then have "e < (- seconds_f64 (- e) + 1) * Second"
      by (simp add: a_def algebra_simps)
    then show ?thesis using 2 by (simp add: seconds_int_def)
  next
    case 3
    have "e < (quot e Second + 1) * Second"
      by (rule quot_upper) (simp add: Second_def)
    then show ?thesis using 3 by (auto simp: seconds_int_def)
  qed
qed

section \<open>Properties of Metrics\<close>

lemma Record_fields:
  "totalRequests (Record m l w) = wrap64 (totalRequests m + wrap64 (w + 1))"
  "wastedReqs (Record m l w) = wrap64 (wastedReqs m + w)"
  "latencies (Record m l w) = latencies m @ [l]"
  by (simp_all add: Record_def Let_def)

text \<open>
  Along a sequence of calls the total and the wasted count stay apart by the number of
  latencies, up to a multiple of \<open>2^64\<close>; and from the zero state on, the total is an
  \<^verbatim>\<open>int64\<close>.
\<close>

lemma Record_balance:
  assumes "totalRequests m = wastedReqs m + int (length (latencies m)) + 2 ^ 64 * k"
  shows "\<exists>k'. totalRequests (Record m l w)
            = wastedReqs (Record m l w) + int (length (latencies (Record m l w))) + 2 ^ 64 * k'"
proof -
  obtain a where a: "wrap64 (totalRequests m + (w + 1)) = totalRequests m + (w + 1) + 2 ^ 64 * a"
    using wrap64_diff by blast
  obtain b where b: "wrap64 (wastedReqs m + w) = wastedReqs m + w + 2 ^ 64 * b"
    using wrap64_diff by blast
  have T: "totalRequests (Record m l w) = totalRequests m + (w + 1) + 2 ^ 64 * a"
    by (simp only: Record_fields wrap64_add_wrap64 a)
  have W: "wastedReqs (Record m l w) = wastedReqs m + w + 2 ^ 64 * b"
    by (simp only: Record_fields b)
  have L: "int (length (latencies (Record m l w))) = int (length (latencies m)) + 1"
    by (simp add: Record_fields)
  have "totalRequests (Record m l w)
      = wastedReqs (Record m l w) + int (length (latencies (Record m l w)))
        + 2 ^ 64 * (k + a - b)"
    unfolding T W L using assms by (simp add: algebra_simps)
  then show ?thesis ..
qed

lemma record_all_balance:
  assumes "totalRequests m = wastedReqs m + int (length (latencies m)) + 2 ^ 64 * k"
  shows "\<exists>k'. totalRequests (record_all m cs)
            = wastedReqs (record_all m cs) + int (length (latencies (record_all m cs)))
              + 2 ^ 64 * k'"
  using assms
proof (induction cs arbitrary: m k)
  case Nil
  then show ?case by auto
next
  case (Cons c cs)
  obtain k' where step: "totalRequests (Record m (fst c) (snd c))
      = wastedReqs (Record m (fst c) (snd c))
        + int (length (latencies (Record m (fst c) (snd c)))) + 2 ^ 64 * k'"
    using Record_balance [OF Cons.prems] by blast
  show ?case using Cons.IH [OF step] by simp
qed

lemma record_all_range:
  assumes "in_int64 (totalRequests m)" and "in_int64 (wastedReqs m)"
  shows "in_int64 (totalRequests (record_all m cs)) \<and> in_int64 (wastedReqs (record_all m cs))"
  using assms
proof (induction cs arbitrary: m)
  case Nil
  then show ?case by simp
next
  case (Cons c cs)
  have "in_int64 (totalRequests (Record m (fst c) (snd c)))"
    "in_int64 (wastedReqs (Record m (fst c) (snd c)))"
    using wrap64_range by (simp_all add: Record_fields in_int64_def)
  then show ?case by (simp add: Cons.IH)
qed

lemma record_all_invariant:
  "totalRequests (record_all zero_metrics cs)
     = wrap64 (wastedReqs (record_all zero_metrics cs)
               + int (length (latencies (record_all zero_metrics cs))))"
proof -
  have z: "totalRequests zero_metrics
      = wastedReqs zero_metrics + int (length (latencies zero_metrics)) + 2 ^ 64 * 0"
    by (simp add: zero_metrics_def)
  obtain k where k: "totalRequests (record_all zero_metrics cs)
      = wastedReqs (record_all zero_metrics cs)
        + int (length (latencies (record_all zero_metrics cs))) + 2 ^ 64 * k"
    using record_all_balance [OF z] by blast
  have "in_int64 (totalRequests (record_all zero_metrics cs))"
    using record_all_range [of zero_metrics cs] by (simp add: zero_metrics_def in_int64_def)
  then show ?thesis
    unfolding in_int64_def using k by (intro wrap64_unique) simp_all
qed

text \<open>
  Claim C3, as written, reads the increments and the invariant as equations between
  integers. The counters are Go \<^verbatim>\<open>int\<close>s: one call with the largest \<^verbatim>\<open>int\<close> as wasted
  count takes the total from \<open>0\<close> to \<open>-2^63\<close>, which is neither \<open>0 + (wasted + 1)\<close> nor the
  wasted count plus one latency.
\<close>

theorem Record_overflow_counterexample:
  "totalRequests (Record zero_metrics 0 9223372036854775807) = - 9223372036854775808
   \<and> totalRequests (Record zero_metrics 0 9223372036854775807)
       \<noteq> totalRequests zero_metrics + (9223372036854775807 + 1)
   \<and> totalRequests (record_all zero_metrics [(0, 9223372036854775807)])
       \<noteq> wastedReqs (record_all zero_metrics [(0, 9223372036854775807)])
         + int (length (latencies (record_all zero_metrics [(0, 9223372036854775807)])))"
  by (simp add: Record_def Let_def zero_metrics_def wrap64_def)

text \<open>
  Claim C3, amended. \<^verbatim>\<open>Metrics.Record(latency, wasted)\<close> adds \<open>wasted + 1\<close> to the total
  and \<open>wasted\<close> to the wasted count in Go's \<^verbatim>\<open>int\<close> arithmetic, which wraps around at
  \<open>2^63\<close>, and appends the latency; each sum is the exact one whenever that fits in an
  \<^verbatim>\<open>int\<close>. From the zero state, after every finite sequence of calls, the total equals
  the wasted count plus the number of latencies as Go computes that sum, and as integers
  whenever the wasted count plus the number of latencies is below \<open>2^63\<close>.
\<close>

theorem Record_effect_and_invariant:
  "totalRequests (Record m latency wasted) = wrap64 (totalRequests m + wrap64 (wasted + 1))
   \<and> wastedReqs (Record m latency wasted) = wrap64 (wastedReqs m + wasted)
   \<and> latencies (Record m latency wasted) = latencies m @ [latency]
   \<and> (in_int64 (totalRequests m + (wasted + 1)) \<longrightarrow>
        totalRequests (Record m latency wasted) = totalRequests m + (wasted + 1))
   \<and> (in_int64 (wastedReqs m + wasted) \<longrightarrow>
        wastedReqs (Record m latency wasted) = wastedReqs m + wasted)
   \<and> totalRequests (record_all zero_metrics cs)
       = wrap64 (wastedReqs (record_all zero_metrics cs)
                 + int (length (latencies (record_all zero_metrics cs))))
   \<and> (wastedReqs (record_all zero_metrics cs)
        + int (length (latencies (record_all zero_metrics cs))) < 2 ^ 63 \<longrightarrow>
        totalRequests (record_all zero_metrics cs)
          = wastedReqs (record_all zero_metrics cs)
            + int (length (latencies (record_all zero_metrics cs))))"
proof -
  have t: "in_int64 (totalRequests m + (wasted + 1)) \<longrightarrow>
        totalRequests (Record m latency wasted) = totalRequests m + (wasted + 1)"
    by (simp add: Record_fields wrap64_add_wrap64 in_int64_def wrap64_id)
  have w: "in_int64 (wastedReqs m + wasted) \<longrightarrow>
        wastedReqs (Record m latency wasted) = wastedReqs m + wasted"
    by (simp add: Record_fields in_int64_def wrap64_id)
  have lo: "- (2 ^ 63) \<le> wastedReqs (record_all zero_metrics cs)"
    using record_all_range [of zero_metrics cs] by (simp add: zero_metrics_def in_int64_def)
  have e: "wastedReqs (record_all zero_metrics cs)
        + int (length (latencies (record_all zero_metrics cs))) < 2 ^ 63 \<longrightarrow>
        totalRequests (record_all zero_metrics cs)
          = wastedReqs (record_all zero_metrics cs)
            + int (length (latencies (record_all zero_metrics cs)))"
  proof
    assume "wastedReqs (record_all zero_metrics cs)
        + int (length (latencies (record_all zero_metrics cs))) < 2 ^ 63"
    then have "wrap64 (wastedReqs (record_all zero_metrics cs)
        + int (length (latencies (record_all zero_metrics cs))))
       = wastedReqs (record_all zero_metrics cs)
        + int (length (latencies (record_all zero_metrics cs)))"
      using lo by (intro wrap64_id) simp_all
    then show "totalRequests (record_all zero_metrics cs)
          = wastedReqs (record_all zero_metrics cs)
            + int (length (latencies (record_all zero_metrics cs)))"
      by (simp only: record_all_invariant [of cs])
  qed
  show ?thesis
    using t w e record_all_invariant [of cs] by (simp add: Record_fields)
qed

theorem Record_effect_and_invariant_witness:
  "in_int64 (totalRequests (Record zero_metrics 5 1) + (2 + 1))
   \<and> in_int64 (wastedReqs (Record zero_metrics 5 1) + 2)
   \<and> totalRequests (Record (Record zero_metrics 5 1) 3 2) = 5
   \<and> wastedReqs (Record (Record zero_metrics 5 1) 3 2) = 3
   \<and> wastedReqs (record_all zero_metrics [(5, 1), (3, 2), (4, 0)])
       + int (length (latencies (record_all zero_metrics [(5, 1), (3, 2), (4, 0)]))) < 2 ^ 63
   \<and> totalRequests (record_all zero_metrics [(5, 1), (3, 2), (4, 0)]) = 6
   \<and> wastedReqs (record_all zero_metrics [(5, 1), (3, 2), (4, 0)]) = 3
   \<and> latencies (record_all zero_metrics [(5, 1), (3, 2), (4, 0)]) = [5, 3, 4]"
  using Record_effect_and_invariant [of "Record zero_metrics 5 1" 3 2 "[(5, 1), (3, 2), (4, 0)]"]
  by (simp add: Record_def Let_def zero_metrics_def wrap64_def in_int64_def)

section \<open>Properties of the Server\<close>

lemma lookup0_incr:
  "lookup0 (incr m k) j = (if j = k then wrap64 (lookup0 m k + 1) else lookup0 m j)"
  by (simp add: lookup0_def incr_def update_conv')

lemma lookup0_Nil: "lookup0 [] k = 0"
  by (simp add: lookup0_def)

lemma seconds_int_late: "seconds_int 16777216999999999 = 16777217"
  by code_simp

text \<open>
  Claim C2, as written, takes the current second to be the elapsed time truncated to
  whole seconds, and the counters to grow by one. The second is \<^verbatim>\<open>int(elapsed.Seconds())\<close>,
  a floating-point value: \<open>2^24\<close> seconds and 999999999 nanoseconds after the start the
  sum rounds up, and the call counts its request under second 16777217, not 16777216.
  And a counter that holds the largest \<^verbatim>\<open>int\<close> wraps around to \<open>-2^63\<close>.
\<close>

theorem Do_second_counterexample:
  "seconds_int 16777216999999999 = 16777217
   \<and> 16777216999999999 div Second = 16777216
   \<and> lookup0 (requests (fst (Do (NewServer 200 (10 * Second)) 16777216999999999)))
        16777216 = 0
   \<and> lookup0 (requests (fst (Do (NewServer 200 (10 * Second)) 16777216999999999)))
        16777217 = 1
   \<and> lookup0 (requests (fst (Do
        \<lparr>capacity = 200, downFor = 0, requests = [(0, 9223372036854775807)], accepted = []\<rparr>
        0))) 0 = - 9223372036854775808"
  by (simp add: seconds_int_late seconds_int_small Do_def Let_def NewServer_def lookup0_def
      incr_def wrap64_def Second_def)

text \<open>
  Claim C2, amended. Every call of \<open>Do\<close> adds one, in Go's \<^verbatim>\<open>int\<close> arithmetic, to the
  request counter of the current second and touches no other request counter, whatever
  the outcome; the sum is the exact one unless the counter holds the largest \<^verbatim>\<open>int\<close>.
  The current second is \<^verbatim>\<open>int(elapsed.Seconds())\<close>: for an elapsed time below \<open>2^24\<close>
  seconds it is the elapsed time truncated to whole seconds, and for every elapsed time
  it is that number or the next one. The call returns true exactly when the elapsed time
  is not below the outage duration and the accepted count of the current second is below
  the capacity; then that accepted count grows by one, in the same arithmetic. In every
  other case (within the outage, or capacity reached) it returns false and the accepted
  map is left as it was.
\<close>

theorem Do_effect:
  "lookup0 (requests (fst (Do s e))) k
     = (if k = seconds_int e then wrap64 (lookup0 (requests s) k + 1)
        else lookup0 (requests s) k)
   \<and> (in_int64 (lookup0 (requests s) (seconds_int e) + 1) \<longrightarrow>
        lookup0 (requests (fst (Do s e))) (seconds_int e)
          = lookup0 (requests s) (seconds_int e) + 1)
   \<and> (0 \<le> e \<and> e < 2 ^ 24 * Second \<longrightarrow> seconds_int e = e div Second)
   \<and> (0 \<le> e \<and> e < 2 ^ 63 \<longrightarrow>
        seconds_int e = e div Second \<or> seconds_int e = e div Second + 1)
   \<and> snd (Do s e)
       = (if e < downFor s then False
          else lookup0 (accepted s) (seconds_int e) < capacity s)
   \<and> accepted (fst (Do s e))
       = (if snd (Do s e) then incr (accepted s) (seconds_int e) else accepted s)
   \<and> lookup0 (accepted (fst (Do s e))) k
       = (if snd (Do s e) \<and> k = seconds_int e then wrap64 (lookup0 (accepted s) k + 1)
          else lookup0 (accepted s) k)
   \<and> (snd (Do s e) \<and> in_int64 (lookup0 (accepted s) (seconds_int e) + 1) \<longrightarrow>
        lookup0 (accepted (fst (Do s e))) (seconds_int e)
          = lookup0 (accepted s) (seconds_int e) + 1)
   \<and> capacity (fst (Do s e)) = capacity s
   \<and> downFor (fst (Do s e)) = downFor s"
proof -
  have small: "0 \<le> e \<and> e < 2 ^ 24 * Second \<longrightarrow> seconds_int e = e div Second"
    using seconds_f64_small [of e] by (auto simp: seconds_int_def Second_def)
  have near: "0 \<le> e \<and> e < 2 ^ 63 \<longrightarrow>
        seconds_int e = e div Second \<or> seconds_int e = e div Second + 1"
    using seconds_f64_bounds(1,2) [of e] by (auto simp: seconds_int_def)
  have exact: "in_int64 x \<longrightarrow> wrap64 x = x" for x
    by (simp add: in_int64_def wrap64_id)
  show ?thesis
    using small near exact [of "lookup0 (requests s) (seconds_int e) + 1"]
      exact [of "lookup0 (accepted s) (seconds_int e) + 1"]
    by (simp add: Do_def Let_def lookup0_incr)
qed

theorem Do_effect_witness:
  "in_int64 (lookup0 (requests (NewServer 2 (2 * Second))) (seconds_int 2500000000) + 1)
   \<and> (0::int) \<le> 2500000000 \<and> 2500000000 < 2 ^ 24 * Second \<and> (2500000000::int) < 2 ^ 63
   \<and> seconds_int 2500000000 = 2
   \<and> snd (Do (NewServer 2 (2 * Second)) 2500000000)
   \<and> in_int64 (lookup0 (accepted (NewServer 2 (2 * Second))) (seconds_int 2500000000) + 1)
   \<and> lookup0 (requests (fst (Do (NewServer 2 (2 * Second)) 2500000000))) 2 = 1
   \<and> lookup0 (accepted (fst (Do (NewServer 2 (2 * Second)) 2500000000))) 2 = 1
   \<and> \<not> snd (Do (NewServer 2 (2 * Second)) 1500000000)
   \<and> lookup0 (requests (fst (Do (NewServer 2 (2 * Second)) 1500000000))) 1 = 1
   \<and> accepted (fst (Do (NewServer 2 (2 * Second)) 1500000000)) = []"
  using Do_effect [of "NewServer 2 (2 * Second)" 2500000000 2]
    Do_effect [of "NewServer 2 (2 * Second)" 1500000000 1]
  by (simp add: seconds_int_small NewServer_def lookup0_def in_int64_def Second_def incr_def
      wrap64_def)

lemma Do_keeps_fields:
  "capacity (fst (Do s e)) = capacity s" "downFor (fst (Do s e)) = downFor s"
  by (simp_all add: Do_def Let_def)

lemma run_keeps_fields:
  "capacity (run s es) = capacity s \<and> downFor (run s es) = downFor s"
  by (induction es arbitrary: s) (simp_all add: Do_keeps_fields)

lemma cap_inv_Do:
  assumes "cap_inv s"
  shows "cap_inv (fst (Do s e))"
proof -
  have old: "- (2 ^ 63) \<le> lookup0 (accepted s) k \<and> lookup0 (accepted s) k \<le> capacity s" for k
    using assms by (simp add: cap_inv_def)
  have new: "- (2 ^ 63) \<le> wrap64 (lookup0 (accepted s) k + 1)
      \<and> (lookup0 (accepted s) k < capacity s \<longrightarrow>
           wrap64 (lookup0 (accepted s) k + 1) \<le> capacity s)" for k
  proof -
    have "wrap64 (lookup0 (accepted s) k + 1) \<le> lookup0 (accepted s) k + 1"
      using old [of k] by (intro wrap64_le) simp
    then show ?thesis using wrap64_range [of "lookup0 (accepted s) k + 1"] by simp
  qed
  show ?thesis
    using old new by (auto simp: cap_inv_def Do_def Let_def lookup0_incr)
qed

lemma outage_inv_Do: "outage_inv s \<Longrightarrow> outage_inv (fst (Do s e))"
  using seconds_int_upper [of e]
  by (auto simp: outage_inv_def Do_def Let_def lookup0_incr second_within_outage_def)

lemma cap_inv_run: "cap_inv s \<Longrightarrow> cap_inv (run s es)"
  by (induction es arbitrary: s) (simp_all add: cap_inv_Do)

lemma outage_inv_run: "outage_inv s \<Longrightarrow> outage_inv (run s es)"
  by (induction es arbitrary: s) (simp_all add: outage_inv_Do)

lemma cap_inv_NewServer: "0 \<le> c \<Longrightarrow> cap_inv (NewServer c d)"
  by (simp add: cap_inv_def NewServer_def lookup0_Nil)

lemma outage_inv_NewServer: "outage_inv (NewServer c d)"
  by (simp add: outage_inv_def NewServer_def lookup0_Nil)

text \<open>
  Claim C1, as written, asks \<open>accepted[s] \<le> capacity\<close> in every reachable state. A
  server built with a negative capacity accepts nothing, and the count of every second
  reads \<open>0\<close>, above the capacity.
\<close>

theorem negative_capacity_counterexample:
  "\<not> lookup0 (accepted (run (NewServer (- 1) 0) [0, 500000000])) 0
       \<le> capacity (run (NewServer (- 1) 0) [0, 500000000])"
  by (simp add: NewServer_def Do_def Let_def lookup0_def incr_def seconds_int_small wrap64_def
      Second_def)

text \<open>
  Claim C1, amended. In every state reached from \<open>NewServer c d\<close> by any sequence of
  \<open>Do\<close> calls (the lock makes every interleaving such a sequence), with any elapsed
  times: if the capacity is not negative then \<open>accepted[s] \<le> capacity\<close> for every
  second \<open>s\<close>; and, for any capacity, \<open>accepted[s] = 0\<close> for every second that lies
  entirely within the outage window.
\<close>

theorem accepted_within_capacity:
  "(0 \<le> c \<longrightarrow>
      lookup0 (accepted (run (NewServer c d) es)) s \<le> capacity (run (NewServer c d) es))
   \<and> capacity (run (NewServer c d) es) = c
   \<and> (second_within_outage d s \<longrightarrow> lookup0 (accepted (run (NewServer c d) es)) s = 0)"
proof -
  have "0 \<le> c \<Longrightarrow> cap_inv (run (NewServer c d) es)"
    by (rule cap_inv_run) (rule cap_inv_NewServer)
  moreover have "outage_inv (run (NewServer c d) es)"
    by (rule outage_inv_run) (rule outage_inv_NewServer)
  moreover have "downFor (run (NewServer c d) es) = d" "capacity (run (NewServer c d) es) = c"
    by (simp_all add: run_keeps_fields NewServer_def)
  ultimately show ?thesis
    by (simp add: cap_inv_def outage_inv_def)
qed

theorem accepted_within_capacity_witness:
  "(0::int) \<le> 2 \<and> second_within_outage (2 * Second) 1
   \<and> lookup0 (accepted (run (NewServer 2 (2 * Second))
        [0, 1500000000, 2000000000, 2100000000, 2200000000, 3000000000])) 1 = 0
   \<and> lookup0 (accepted (run (NewServer 2 (2 * Second))
        [0, 1500000000, 2000000000, 2100000000, 2200000000, 3000000000])) 2 = 2
   \<and> capacity (run (NewServer 2 (2 * Second))
        [0, 1500000000, 2000000000, 2100000000, 2200000000, 3000000000]) = 2"
  using accepted_within_capacity [of 2 "2 * Second"
      "[0, 1500000000, 2000000000, 2100000000, 2200000000, 3000000000]" 1]
  by (simp add: second_within_outage_def NewServer_def Do_def Let_def lookup0_def incr_def
      seconds_int_small wrap64_def Second_def)

section \<open>Properties of the strategies\<close>

lemma scaled_base_small:
  assumes "0 \<le> a" "a \<le> 36"
  shows "scaled_base a = Some (baseSleep * 2 ^ nat a)"
proof -
  have "nat a \<le> 36" using assms by simp
  then have "(2::int) ^ nat a \<le> 2 ^ 36" by (rule power_increasing) simp
  then have "baseSleep * 2 ^ nat a \<le> 100000000 * 2 ^ 36"
    by (simp add: baseSleep_def Millisecond_def)
  also have "\<dots> < (2::int) ^ 63" by simp
  finally show ?thesis using assms by (simp add: scaled_base_def)
qed

lemma exponentialBackoff_small:
  assumes "0 \<le> a" "a \<le> 36"
  shows "exponentialBackoff ovf a prev = min (baseSleep * 2 ^ nat a) capSleep"
  using assms by (simp add: exponentialBackoff_def scaled_base_small to_duration_def Let_def min_def)

lemma backoff_bounds:
  assumes "0 \<le> a" "a \<le> 36"
  shows "baseSleep \<le> exponentialBackoff ovf a prev" "exponentialBackoff ovf a prev \<le> capSleep"
proof -
  have "(1::int) \<le> 2 ^ nat a" by simp
  then have "baseSleep \<le> baseSleep * 2 ^ nat a"
    by (simp add: baseSleep_def Millisecond_def)
  then show "baseSleep \<le> exponentialBackoff ovf a prev"
    using assms by (simp add: exponentialBackoff_small baseSleep_def capSleep_def Millisecond_def Second_def)
  show "exponentialBackoff ovf a prev \<le> capSleep"
    using assms by (simp add: exponentialBackoff_small)
qed

lemma fullJitter_small:
  assumes "0 \<le> a" "a \<le> 36"
  shows "fullJitter ovf r a prev = Inr (r mod exponentialBackoff ovf a prev)"
    and "0 \<le> r mod exponentialBackoff ovf a prev"
    and "r mod exponentialBackoff ovf a prev < exponentialBackoff ovf a prev"
proof -
  have pos: "0 < exponentialBackoff ovf a prev"
    using backoff_bounds(1) [OF assms, of ovf prev] by (simp add: baseSleep_def Millisecond_def)
  show "fullJitter ovf r a prev = Inr (r mod exponentialBackoff ovf a prev)"
    using pos by (simp add: fullJitter_def exponentialBackoff_def Int63n_def Let_def)
  show "0 \<le> r mod exponentialBackoff ovf a prev" using pos by simp
  show "r mod exponentialBackoff ovf a prev < exponentialBackoff ovf a prev" using pos by simp
qed

text \<open>
  From attempt 37 on the product is out of the \<^verbatim>\<open>int64\<close> range, and the result is the
  platform's: the negative value goes through on amd64, a saturating conversion is
  capped.
\<close>

lemma scaled_base_large:
  assumes "37 \<le> a"
  shows "scaled_base a = None"
proof -
  have "37 \<le> nat a" using assms by simp
  then have "(2::int) ^ 37 \<le> 2 ^ nat a" by (rule power_increasing) simp
  then have "(2::int) ^ 63 \<le> baseSleep * 2 ^ nat a"
    by (simp add: baseSleep_def Millisecond_def)
  then show ?thesis using assms by (simp add: scaled_base_def)
qed

lemma exponentialBackoff_large_amd64:
  "37 \<le> a \<Longrightarrow> exponentialBackoff amd64_ovf a prev = - (2 ^ 63)"
  by (simp add: exponentialBackoff_def scaled_base_large to_duration_def amd64_ovf_def
      capSleep_def Second_def)

lemma fullJitter_large_amd64:
  "37 \<le> a \<Longrightarrow> fullJitter amd64_ovf r a prev = Inl Int63n_invalid_argument"
  by (simp add: fullJitter_def scaled_base_large to_duration_def amd64_ovf_def Int63n_def
      capSleep_def Second_def)

lemma exponentialBackoff_large_saturating:
  "37 \<le> a \<Longrightarrow> exponentialBackoff (2 ^ 63 - 1) a prev = capSleep"
  by (simp add: exponentialBackoff_def scaled_base_large to_duration_def
      capSleep_def Second_def)
lemma decorrelated_no_overflow:
  assumes "3 * max prev baseSleep \<le> 2 ^ 63 - 1"
  shows "decorrelatedJitter r a prev = Inr (decorrelated_spec r prev)"
    and "baseSleep \<le> uniform r baseSleep (max prev baseSleep * 3)"
    and "uniform r baseSleep (max prev baseSleep * 3) < max prev baseSleep * 3"
    and "baseSleep \<le> decorrelated_spec r prev"
    and "decorrelated_spec r prev \<le> capSleep"
proof -
  define p where "p = max prev baseSleep"
  define n where "n = p * 3 - baseSleep"
  define v where "v = r mod n"
  have base: "baseSleep = 100000000" by (simp add: baseSleep_def Millisecond_def)
  have cap: "capSleep = 10000000000" by (simp add: capSleep_def Second_def)
  have p_lo: "baseSleep \<le> p" by (simp add: p_def)
  have p_hi: "3 * p \<le> 2 ^ 63 - 1" using assms by (simp add: p_def)
  have prev1: "(if prev < baseSleep then baseSleep else prev) = p"
    by (simp add: p_def max_def)
  have n_pos: "0 < n" using p_lo by (simp add: n_def base)
  have w1: "wrap64 (p * 3) = p * 3"
    using p_lo p_hi by (intro wrap64_id) (simp_all add: base)
  have w2: "wrap64 (p * 3 - baseSleep) = n"
    unfolding n_def using p_lo p_hi by (intro wrap64_id) (simp_all add: base)
  have v_lo: "0 \<le> v" and v_hi: "v < n" using n_pos by (simp_all add: v_def)
  have w3: "wrap64 (v + baseSleep) = v + baseSleep"
    using v_lo v_hi p_hi by (intro wrap64_id) (simp_all add: base n_def)
  have u: "uniform r baseSleep (max prev baseSleep * 3) = v + baseSleep"
    by (simp add: uniform_def v_def n_def p_def)
  have draw: "Int63n r n = Inr v"
    using n_pos by (simp add: Int63n_def v_def)
  have "decorrelatedJitter r a prev
          = Inr (if v + baseSleep > capSleep then capSleep else v + baseSleep)"
    by (simp only: decorrelatedJitter_def Let_def prev1 w1 w2 draw w3 sum.case)
  also have "(if v + baseSleep > capSleep then capSleep else v + baseSleep)
          = clamp (v + baseSleep) baseSleep capSleep"
    using v_lo by (simp add: clamp_def base cap)
  finally show "decorrelatedJitter r a prev = Inr (decorrelated_spec r prev)"
    by (simp only: decorrelated_spec_def u)
  show "baseSleep \<le> uniform r baseSleep (max prev baseSleep * 3)"
    using v_lo by (simp add: u)
  show "uniform r baseSleep (max prev baseSleep * 3) < max prev baseSleep * 3"
    using v_hi by (simp add: u n_def p_def)
  show "baseSleep \<le> decorrelated_spec r prev"
    by (simp add: decorrelated_spec_def clamp_def)
  show "decorrelated_spec r prev \<le> capSleep"
    by (simp add: decorrelated_spec_def clamp_def base cap)
qed

lemma backoff_value:
  assumes "0 \<le> a"
  shows "exponentialBackoff ovf a prev
     = (if baseSleep * 2 ^ nat a < 2 ^ 63 then min (baseSleep * 2 ^ nat a) capSleep
        else min ovf capSleep)"
  using assms
  by (simp add: exponentialBackoff_def scaled_base_def to_duration_def Let_def min_def)

lemma jitter_value:
  assumes "0 \<le> a"
  shows "fullJitter ovf r a prev = Int63n r (exponentialBackoff ovf a prev)"
  by (simp add: fullJitter_def exponentialBackoff_def Let_def)

lemma backoff_le_cap: "exponentialBackoff ovf a prev \<le> capSleep"
  by (simp add: exponentialBackoff_def Let_def)

lemma backoff_nonneg:
  assumes "0 \<le> a" and "baseSleep * 2 ^ nat a < 2 ^ 63 \<or> 0 \<le> ovf"
  shows "0 \<le> exponentialBackoff ovf a prev"
  using assms
  by (auto simp: backoff_value baseSleep_def capSleep_def Millisecond_def Second_def)

lemma backoff_pos:
  assumes "0 \<le> a" and "baseSleep * 2 ^ nat a < 2 ^ 63 \<or> 0 < ovf"
  shows "0 < exponentialBackoff ovf a prev"
  using assms
  by (auto simp: backoff_value baseSleep_def capSleep_def Millisecond_def Second_def)

lemma in_range_iff:
  assumes "0 \<le> a"
  shows "baseSleep * 2 ^ nat a < 2 ^ 63 \<longleftrightarrow> a \<le> 36"
proof
  assume "a \<le> 36"
  then have "scaled_base a = Some (baseSleep * 2 ^ nat a)"
    using assms by (intro scaled_base_small)
  then show "baseSleep * 2 ^ nat a < 2 ^ 63"
    using assms by (simp add: scaled_base_def split: if_splits)
next
  assume lt: "baseSleep * 2 ^ nat a < 2 ^ 63"
  show "a \<le> 36"
  proof (rule ccontr)
    assume "\<not> a \<le> 36"
    then have "scaled_base a = None" by (intro scaled_base_large) simp
    then show False using lt assms by (simp add: scaled_base_def split: if_splits)
  qed
qed

text \<open>
  Claim C4, as written, covers every previous delay. The decorrelated strategy computes
  \<open>prev * 3 - base\<close> and \<open>draw + base\<close> in 64-bit arithmetic: for a previous delay of
  about 97 years the bound still fits, but the sum wraps and the function returns a
  negative duration.
\<close>

theorem decorrelated_negative_counterexample:
  "decorrelatedJitter 9223372036854775804 0 3074457345651591935
     = Inr (- 9223372036754775812)
   \<and> \<not> (\<exists>d. decorrelatedJitter 9223372036854775804 0 3074457345651591935 = Inr d
            \<and> 0 \<le> d \<and> d \<le> capSleep)"
  by (simp add: decorrelatedJitter_def Let_def Int63n_def wrap64_def baseSleep_def capSleep_def
      Millisecond_def Second_def)

text \<open>
  Claim C4, amended. The constant strategy returns exactly 1ms for every input. For every
  attempt count, previous delay and draw of the random source, backoff returns a duration
  of at most the 10s cap; for a non-negative attempt count the duration is not negative
  whenever the product \<open>base * 2^attempt\<close> fits in 64 bits (attempts 0 to 36) or the
  platform converts an out-of-range product to a non-negative duration \<open>ovf\<close>. Under the
  same condition, with a positive \<open>ovf\<close>, jitter returns without panicking a non-negative
  duration of at most the cap. For every previous delay whose triple (after raising it to
  the base delay) fits in 64 bits, decorrelated returns without panicking a non-negative
  duration of at most the cap, whatever the attempt count.
\<close>

theorem strategies_bounded:
  "constantRetry attempt prev = 1 * Millisecond
   \<and> exponentialBackoff ovf attempt prev \<le> capSleep
   \<and> (0 \<le> attempt \<and> (baseSleep * 2 ^ nat attempt < 2 ^ 63 \<or> 0 \<le> ovf) \<longrightarrow>
        0 \<le> exponentialBackoff ovf attempt prev)
   \<and> (0 \<le> attempt \<and> (baseSleep * 2 ^ nat attempt < 2 ^ 63 \<or> 0 < ovf) \<longrightarrow>
        (\<exists>d. fullJitter ovf r attempt prev = Inr d \<and> 0 \<le> d \<and> d \<le> capSleep))
   \<and> (0 \<le> attempt \<longrightarrow> (baseSleep * 2 ^ nat attempt < 2 ^ 63 \<longleftrightarrow> attempt \<le> 36))
   \<and> (3 * max prev baseSleep \<le> 2 ^ 63 - 1 \<longrightarrow>
        (\<exists>d. decorrelatedJitter r attempt prev = Inr d \<and> 0 \<le> d \<and> d \<le> capSleep))"
proof -
  have j: "\<exists>d. fullJitter ovf r attempt prev = Inr d \<and> 0 \<le> d \<and> d \<le> capSleep"
    if "0 \<le> attempt" and "baseSleep * 2 ^ nat attempt < 2 ^ 63 \<or> 0 < ovf"
  proof -
    have pos: "0 < exponentialBackoff ovf attempt prev" using that by (rule backoff_pos)
    have "r mod exponentialBackoff ovf attempt prev < exponentialBackoff ovf attempt prev"
      using pos by simp
    then have "r mod exponentialBackoff ovf attempt prev \<le> capSleep"
      using backoff_le_cap [of ovf attempt prev] by linarith
    moreover have "0 \<le> r mod exponentialBackoff ovf attempt prev" using pos by simp
    moreover have "fullJitter ovf r attempt prev = Inr (r mod exponentialBackoff ovf attempt prev)"
      using pos that(1) by (simp add: jitter_value Int63n_def)
    ultimately show ?thesis by blast
  qed
  have d: "\<exists>d. decorrelatedJitter r attempt prev = Inr d \<and> 0 \<le> d \<and> d \<le> capSleep"
    if "3 * max prev baseSleep \<le> 2 ^ 63 - 1"
  proof -
    have b: "0 \<le> baseSleep" by (simp add: baseSleep_def Millisecond_def)
    have "decorrelatedJitter r attempt prev = Inr (decorrelated_spec r prev)"
      using that by (rule decorrelated_no_overflow(1))
    moreover have "0 \<le> decorrelated_spec r prev"
      using b decorrelated_no_overflow(4) [OF that, of r] by linarith
    moreover have "decorrelated_spec r prev \<le> capSleep"
      using that by (rule decorrelated_no_overflow(5))
    ultimately show ?thesis by blast
  qed
  have c1: "constantRetry attempt prev = 1 * Millisecond"
    by (simp add: constantRetry_def)
  have c2: "exponentialBackoff ovf attempt prev \<le> capSleep"
    by (rule backoff_le_cap)
  have c3: "0 \<le> attempt \<and> (baseSleep * 2 ^ nat attempt < 2 ^ 63 \<or> 0 \<le> ovf) \<longrightarrow>
        0 \<le> exponentialBackoff ovf attempt prev"
    using backoff_nonneg [of attempt ovf prev] by blast
  have c4: "0 \<le> attempt \<and> (baseSleep * 2 ^ nat attempt < 2 ^ 63 \<or> 0 < ovf) \<longrightarrow>
        (\<exists>d. fullJitter ovf r attempt prev = Inr d \<and> 0 \<le> d \<and> d \<le> capSleep)"
    using j by blast
  have c5: "0 \<le> attempt \<longrightarrow> (baseSleep * 2 ^ nat attempt < 2 ^ 63 \<longleftrightarrow> attempt \<le> 36)"
    using in_range_iff [of attempt] by blast
  have c6: "3 * max prev baseSleep \<le> 2 ^ 63 - 1 \<longrightarrow>
        (\<exists>d. decorrelatedJitter r attempt prev = Inr d \<and> 0 \<le> d \<and> d \<le> capSleep)"
    using d by blast
  show ?thesis
    using c1 c2 c3 c4 c5 c6 by blast
qed

theorem strategies_bounded_witness:
  "constantRetry 3 Second = 1000000
   \<and> (0::int) \<le> 3 \<and> baseSleep * 2 ^ nat 3 < 2 ^ 63
   \<and> exponentialBackoff amd64_ovf 3 Second = 800000000
   \<and> fullJitter amd64_ovf 12345678901 3 Second = Inr 345678901
   \<and> (0::int) \<le> 40 \<and> (0::int) < 2 ^ 63 - 1
   \<and> exponentialBackoff (2 ^ 63 - 1) 40 Second = 10000000000
   \<and> fullJitter (2 ^ 63 - 1) 12345678901 40 Second = Inr 2345678901
   \<and> 3 * max Second baseSleep \<le> 2 ^ 63 - 1
   \<and> decorrelatedJitter 12345678901 3 Second = Inr 845678901"
  using strategies_bounded [of 3 Second amd64_ovf 12345678901]
    strategies_bounded [of 40 Second "2 ^ 63 - 1" 12345678901]
  by (simp add: constantRetry_def exponentialBackoff_def fullJitter_def decorrelatedJitter_def
      scaled_base_def to_duration_def Int63n_def wrap64_def Let_def baseSleep_def capSleep_def
      Millisecond_def Second_def amd64_ovf_def)


text \<open>
  Claim C5 says that backoff returns \<open>min(base * 2^attempt, cap)\<close> for every
  non-negative attempt count. From attempt 37 on the product \<open>10^8 * 2^attempt\<close> exceeds
  \<open>2^63\<close>, and the conversion of the \<^verbatim>\<open>float64\<close> product to a duration is out of
  range. On amd64 it yields \<open>-2^63\<close>, which the comparison with the cap lets through:
  the function returns a negative duration instead of the cap.
\<close>

theorem exponentialBackoff_overflow_amd64:
  "exponentialBackoff amd64_ovf 37 prev = - 9223372036854775808
   \<and> min (baseSleep * 2 ^ 37) capSleep = 10000000000
   \<and> exponentialBackoff amd64_ovf 36 prev = min (baseSleep * 2 ^ 36) capSleep"
  by (simp add: exponentialBackoff_def scaled_base_def to_duration_def amd64_ovf_def Let_def
      baseSleep_def capSleep_def Millisecond_def Second_def)

text \<open>
  Claim C6 says that jitter returns a value in \<open>[0, backoff(attempt))\<close> for every
  non-negative attempt count. From attempt 37 on, on amd64, the bound handed to
  \<^verbatim>\<open>rand.Int63n\<close> is \<open>-2^63\<close> and the call panics, whatever the random source holds.
\<close>

theorem fullJitter_overflow_amd64:
  "fullJitter amd64_ovf r 37 prev = Inl Int63n_invalid_argument
   \<and> fullJitter amd64_ovf 5 36 prev = Inr 5"
  by (simp add: fullJitter_def scaled_base_def to_duration_def amd64_ovf_def Int63n_def Let_def
      baseSleep_def capSleep_def Millisecond_def Second_def)

text \<open>
  Claim C7, as written, covers every previous delay. For a previous delay of \<open>2^62\<close>
  nanoseconds the 64-bit product \<open>prev * 3\<close> wraps to a negative number and
  \<^verbatim>\<open>rand.Int63n\<close> panics: no value is returned.
\<close>

theorem decorrelated_overflow_counterexample:
  "decorrelatedJitter 0 0 (2 ^ 62) = Inl Int63n_invalid_argument
   \<and> \<not> (\<exists>d. decorrelatedJitter 0 0 (2 ^ 62) = Inr d \<and> baseSleep \<le> d \<and> d \<le> capSleep)"
  by (simp add: decorrelatedJitter_def Let_def Int63n_def wrap64_def baseSleep_def
      Millisecond_def)

text \<open>
  Claim C7, amended. For every previous delay whose triple (after raising it to the base
  delay) fits in 64 bits and for every draw \<open>r\<close> of the random source, the decorrelated
  strategy returns \<open>clamp(u, base, cap)\<close> where \<open>u = base + r mod (3 * max(prev, base) - base)\<close>
  is the value the draw selects in the range from \<open>base\<close> up to, not including,
  \<open>3 * max(prev, base)\<close>; the result lies between \<open>base\<close> and \<open>cap\<close>.
\<close>

theorem decorrelated_refines_spec:
  assumes "3 * max prev baseSleep \<le> 2 ^ 63 - 1"
  shows "decorrelatedJitter r attempt prev = Inr (decorrelated_spec r prev)
     \<and> decorrelated_spec r prev
         = clamp (uniform r baseSleep (max prev baseSleep * 3)) baseSleep capSleep
     \<and> baseSleep \<le> uniform r baseSleep (max prev baseSleep * 3)
     \<and> uniform r baseSleep (max prev baseSleep * 3) < max prev baseSleep * 3
     \<and> baseSleep \<le> decorrelated_spec r prev
     \<and> decorrelated_spec r prev \<le> capSleep"
  using decorrelated_no_overflow [OF assms]
  by (simp add: decorrelated_spec_def)

theorem decorrelated_refines_spec_witness:
  "3 * max Second baseSleep \<le> 2 ^ 63 - 1
   \<and> decorrelatedJitter 12345678901 7 Second = Inr 845678901
   \<and> decorrelated_spec 12345678901 Second = 845678901
   \<and> uniform 12345678901 baseSleep (max Second baseSleep * 3) = 845678901"
  using decorrelated_refines_spec [of Second 12345678901 7]
  by (simp add: decorrelated_spec_def clamp_def uniform_def baseSleep_def capSleep_def
      Millisecond_def Second_def)

section \<open>Properties of the summary\<close>

subsection \<open>The 99th-percentile index\<close>

text \<open>
  For every length up to \<open>2^46\<close> (a slice of durations cannot be longer on a 64-bit
  machine) the index computed in binary64 is the integer part of \<open>99 n / 100\<close>: the
  rounding of the product never crosses a whole number.
\<close>

lemma p99_index_floor:
  assumes "0 < n" and "n \<le> 2 ^ 46"
  shows "p99_index n = 99 * n div 100"
proof -
  define P where "P = n * f64_099"
  define k where "k = 99 * n div 100"
  define rho where "rho = 99 * n mod 100"
  have rho: "0 \<le> rho" "rho < 100" "99 * n = 100 * k + rho"
    by (simp_all add: rho_def k_def)
  have P100: "100 * P = 100 * k * 2 ^ 53 + rho * 2 ^ 53 - 8 * n"
  proof -
    have "100 * P = 99 * n * 2 ^ 53 - 8 * n"
      by (simp add: P_def f64_099_def)
    also have "\<dots> = (100 * k + rho) * 2 ^ 53 - 8 * n"
      by (simp only: rho(3))
    finally show ?thesis by (simp add: algebra_simps)
  qed
  have Ppos: "0 < P" using assms by (simp add: P_def f64_099_def)
  have Plt: "P < n * 2 ^ 53" using assms by (simp add: P_def f64_099_def)
  have Pgt: "n * 2 ^ 52 < P" using assms by (simp add: P_def f64_099_def)
  have bl: "2 ^ bitlen P \<le> 2 * P" "P < 2 ^ bitlen P"
    using bitlen_bounds [OF Ppos] by simp_all
  have idx: "p99_index n = round53 P div 2 ^ 53"
    by (simp add: p99_index_def P_def)
  show ?thesis
  proof (cases "bitlen P \<le> 53")
    case True
    then have "(2::int) ^ bitlen P \<le> 2 ^ 53"
      by (intro power_increasing) simp_all
    with bl(2) have P53: "P < 2 ^ 53" by linarith
    with Pgt have n1: "n = 1" using assms by simp
    have "round53 P = P" using True by (simp add: round53_def)
    then have "p99_index n = P div 2 ^ 53" by (simp only: idx)
    also have "\<dots> = 0" using P53 Ppos by simp
    finally show ?thesis by (simp add: n1)
  next
    case False
    define sh where "sh = bitlen P - 53"
    define h where "h = (2::int) ^ (sh - 1)"
    have sh1: "1 \<le> sh" and L: "bitlen P = 53 + sh"
      using False by (simp_all add: sh_def)
    have two_sh: "(2::int) ^ sh = 2 * h"
      using sh1 by (simp add: h_def power_eq_if)
    have hpos: "0 < h" by (simp add: h_def)
    have pL: "(2::int) ^ bitlen P = 2 ^ 53 * (2 * h)"
      by (simp only: L power_add two_sh)
    have hP: "2 ^ 53 * h \<le> P" using bl(1) by (simp add: pL)
    have Ph: "P < 2 ^ 54 * h" using bl(2) by (simp add: pL)
    have h_lt_n: "h < n" using hP Plt by simp
    have n_lt_4h: "n < 4 * h" using Pgt Ph by simp
    have h46: "(2::int) ^ (sh - 1) < 2 ^ 46"
      using h_lt_n assms(2) by (simp add: h_def)
    have "sh - 1 < 46"
      by (rule power_less_imp_less_exp [OF _ h46]) simp
    then have sh_le: "sh \<le> 53" by simp
    define c where "c = (2::int) ^ (53 - sh)"
    have cpos: "0 < c" by (simp add: c_def)
    have c: "(2::int) ^ 53 = c * (2 * h)"
    proof -
      have "(2::int) ^ 53 = 2 ^ ((53 - sh) + sh)" using sh_le by simp
      also have "\<dots> = c * 2 ^ sh" by (simp only: power_add c_def)
      finally show ?thesis by (simp only: two_sh)
    qed
    define q where "q = P div 2 ^ sh"
    define r where "r = P mod 2 ^ sh"
    define q' where "q' = (if r > h \<or> (r = h \<and> odd q) then q + 1 else q)"
    have rnd_sh: "round53 P = q' * 2 ^ sh"
      unfolding q'_def q_def r_def h_def
      using False by (simp add: round53_def Let_def sh_def)
    have rnd: "round53 P = q' * (2 * h)"
      using rnd_sh by (simp only: two_sh)
    have "P = q * 2 ^ sh + r"
      unfolding q_def r_def by (rule div_mult_mod_eq [symmetric])
    then have Pqr: "P = q * (2 * h) + r"
      by (simp only: two_sh)
    have "0 \<le> r \<and> r < 2 ^ sh"
      by (simp add: r_def)
    then have r0: "0 \<le> r" and r2h: "r < 2 * h"
      by (simp_all only: two_sh)
    have idx': "p99_index n = q' div c"
    proof -
      have "round53 P div 2 ^ 53 = (q' * (2 * h)) div (c * (2 * h))"
        by (simp only: rnd c)
      also have "\<dots> = q' div c"
        using hpos by (intro div_mult_mult2) simp
      finally show ?thesis by (simp only: idx)
    qed
    have up: "q' < (k + 1) * c"
    proof (rule ccontr)
      assume "\<not> q' < (k + 1) * c"
      then have T: "(k + 1) * c \<le> q'" by simp
      have "(k + 1) * c * (2 * h) - h \<le> P"
      proof (cases "r > h \<or> (r = h \<and> odd q)")
        case True
        then have "q' = q + 1" and "h \<le> r" by (auto simp: q'_def)
        with T have "(k + 1) * c - 1 \<le> q" by simp
        then have "((k + 1) * c - 1) * (2 * h) \<le> q * (2 * h)"
          using hpos by (intro mult_right_mono) simp_all
        with \<open>h \<le> r\<close> Pqr show ?thesis by (simp add: algebra_simps)
      next
        case False
        then have "q' = q" by (simp add: q'_def)
        with T have "(k + 1) * c * (2 * h) \<le> q * (2 * h)"
          using hpos by (intro mult_right_mono) simp_all
        with r0 hpos Pqr show ?thesis by linarith
      qed
      moreover have "(k + 1) * c * (2 * h) = (k + 1) * 2 ^ 53"
        by (simp only: c mult.assoc)
      ultimately have "(k + 1) * 2 ^ 53 - h \<le> P" by simp
      with P100 rho h_lt_n assms(2) show False by simp
    qed
    have lo: "k * c \<le> q'"
    proof (rule ccontr)
      assume "\<not> k * c \<le> q'"
      then have T: "q' \<le> k * c - 1" by simp
      have "P \<le> k * c * (2 * h) - h"
      proof (cases "r > h \<or> (r = h \<and> odd q)")
        case True
        then have "q' = q + 1" by (simp add: q'_def)
        with T have "q + 1 \<le> k * c - 1" by simp
        then have "(q + 1) * (2 * h) \<le> (k * c - 1) * (2 * h)"
          using hpos by (intro mult_right_mono) simp_all
        with r2h hpos Pqr show ?thesis by (simp add: algebra_simps)
      next
        case False
        then have "q' = q" and "r \<le> h" by (auto simp: q'_def)
        with T have "q * (2 * h) \<le> (k * c - 1) * (2 * h)"
          using hpos by (intro mult_right_mono) simp_all
        with \<open>r \<le> h\<close> Pqr show ?thesis by (simp add: algebra_simps)
      qed
      moreover have "k * c * (2 * h) = k * 2 ^ 53"
        by (simp only: c mult.assoc)
      ultimately have "P \<le> k * 2 ^ 53 - h" by simp
      with P100 rho n_lt_4h hpos show False by simp
    qed
    have "q' div c = k"
    proof (rule int_div_pos_eq)
      show "q' = c * k + (q' - k * c)" by simp
      show "0 \<le> q' - k * c" using lo by simp
      show "q' - k * c < c" using up by (simp add: algebra_simps)
    qed
    then show ?thesis by (simp add: idx' k_def)
  qed
qed

lemma printSummary_p99:
  assumes "length (latencies m) \<le> 2 ^ 46"
  shows "p99_latency (fst (printSummary srv m))
     = (if latencies m = [] then 0
        else sort (latencies m) ! (99 * length (latencies m) div 100))"
proof (cases "latencies m = []")
  case True
  then show ?thesis by (simp add: printSummary_def Let_def)
next
  case False
  define l where "l = length (latencies m)"
  have lpos: "0 < l" using False by (simp add: l_def)
  have n46: "int l \<le> 2 ^ 46" using assms by (simp add: l_def)
  have idx: "p99_index (int l) = 99 * int l div 100"
    using lpos n46 by (intro p99_index_floor) simp_all
  have lt: "99 * int l div 100 < int l" using lpos by simp
  have nat_idx: "nat (99 * int l div 100) = 99 * l div 100"
    by (simp add: nat_div_distrib nat_mult_distrib)
  have ne: "sort (latencies m) \<noteq> []"
    using lpos by (metis l_def length_sort length_greater_0_conv)
  show ?thesis
    using False lpos lt ne
    by (simp add: printSummary_def Let_def l_def [symmetric] idx nat_idx)
qed

lemma one_to_hundred_facts:
  "length (one_to_hundred u) = 100"
  "one_to_hundred u ! 99 = 100 * u"
  "one_to_hundred u ! 98 = 99 * u"
  "one_to_hundred u \<noteq> []"
  by (simp_all add: one_to_hundred_def)

lemma sorted_one_to_hundred: "0 < u \<Longrightarrow> sorted (one_to_hundred u)"
  unfolding one_to_hundred_def sorted_map
  by (rule sorted_wrt_mono_rel [OF _ sorted_upto]) simp

lemma sort_one_to_hundred:
  assumes "0 < u" and "mset xs = mset (one_to_hundred u)"
  shows "sort xs = one_to_hundred u"
  using assms by (intro properties_for_sort) (simp_all add: sorted_one_to_hundred)

lemma Round_Millisecond_multiple:
  assumes "0 \<le> k" and "k < 1000000000000"
  shows "Round (k * Millisecond) Millisecond = k * Millisecond"
proof -
  have q: "quot (k * 1000000) 1000000 = k"
    using assms(1) by (simp add: quot_nonneg)
  show ?thesis
    using assms
    by (simp add: Round_def Millisecond_def rem_def q lessThanHalf_def Let_def wrap64_id)
qed

text \<open>
  Claim C8, as written, ends with an example: for the latencies \<open>{1, ..., 100}\<close> the
  reported value is the element at index 98. With \<open>n = 100\<close> the index is
  \<open>floor(0.99 * 100) = 99\<close>: for the latencies 1ms, ..., 100ms the summary computes, and
  prints, the last element, 100ms.
\<close>

theorem p99_example_counterexample:
  "p99_latency (fst (printSummary (NewServer 200 (10 * Second))
       (zero_metrics\<lparr>latencies := one_to_hundred Millisecond\<rparr>))) = 100 * Millisecond
   \<and> p99_shown (fst (printSummary (NewServer 200 (10 * Second))
       (zero_metrics\<lparr>latencies := one_to_hundred Millisecond\<rparr>))) = 100 * Millisecond
   \<and> sort (one_to_hundred Millisecond) ! 98 = 99 * Millisecond
   \<and> p99_latency (fst (printSummary (NewServer 200 (10 * Second))
       (zero_metrics\<lparr>latencies := one_to_hundred Millisecond\<rparr>)))
      \<noteq> sort (one_to_hundred Millisecond) ! 98"
proof -
  have ms: "0 < Millisecond" by (simp add: Millisecond_def)
  have s: "sort (one_to_hundred Millisecond) = one_to_hundred Millisecond"
    using ms by (rule sort_one_to_hundred) simp
  have p: "p99_latency (fst (printSummary (NewServer 200 (10 * Second))
       (zero_metrics\<lparr>latencies := one_to_hundred Millisecond\<rparr>))) = 100 * Millisecond"
    by (subst printSummary_p99) (simp_all add: s one_to_hundred_facts)
  have "p99_shown (fst (printSummary (NewServer 200 (10 * Second))
       (zero_metrics\<lparr>latencies := one_to_hundred Millisecond\<rparr>)))
     = Round (p99_latency (fst (printSummary (NewServer 200 (10 * Second))
       (zero_metrics\<lparr>latencies := one_to_hundred Millisecond\<rparr>)))) Millisecond"
    by (simp add: printSummary_def Let_def)
  also have "\<dots> = 100 * Millisecond"
    unfolding p by (rule Round_Millisecond_multiple) simp_all
  finally show ?thesis
    using ms by (simp add: p s one_to_hundred_facts)
qed

text \<open>
  Claim C8, amended. The p99 latency that the summary computes is the element of the
  sorted latency collection at index \<open>floor(0.99 * n)\<close>, clamped to the last valid index,
  and zero when there is no latency (for every collection of at most \<open>2^46\<close> latencies);
  the summary prints it rounded to the nearest millisecond. In particular, for the
  latencies \<open>{1, ..., 100}\<close> in any unit and in any order, the index is 99 and the value is
  the 100th value, 100 units.
\<close>

theorem p99_is_floor_index:
  assumes "length (latencies m) \<le> 2 ^ 46"
  shows "p99_latency (fst (printSummary srv m))
     = (if latencies m = [] then 0
        else sort (latencies m)
               ! min (99 * length (latencies m) div 100) (length (latencies m) - 1))
   \<and> p99_shown (fst (printSummary srv m))
       = Round (p99_latency (fst (printSummary srv m))) Millisecond
   \<and> (0 < u \<and> mset (latencies m) = mset (one_to_hundred u) \<longrightarrow>
        p99_latency (fst (printSummary srv m)) = 100 * u
        \<and> sort (latencies m) ! 99 = 100 * u
        \<and> 99 * length (latencies m) div 100 = 99)"
proof -
  have le: "99 * length (latencies m) div 100 \<le> length (latencies m) - 1"
    by (cases "length (latencies m)") simp_all
  have general: "p99_latency (fst (printSummary srv m))
     = (if latencies m = [] then 0
        else sort (latencies m)
               ! min (99 * length (latencies m) div 100) (length (latencies m) - 1))"
    using printSummary_p99 [OF assms, of srv] le by (simp add: min_absorb1)
  have shown: "p99_shown (fst (printSummary srv m))
       = Round (p99_latency (fst (printSummary srv m))) Millisecond"
    by (simp add: printSummary_def Let_def)
  have particular: "p99_latency (fst (printSummary srv m)) = 100 * u
        \<and> sort (latencies m) ! 99 = 100 * u \<and> 99 * length (latencies m) div 100 = 99"
    if u: "0 < u" and a: "mset (latencies m) = mset (one_to_hundred u)"
  proof -
    have s: "sort (latencies m) = one_to_hundred u"
      using u a by (rule sort_one_to_hundred)
    have "length (latencies m) = size (mset (latencies m))" by simp
    also have "\<dots> = 100" by (simp only: a) (simp add: one_to_hundred_facts)
    finally have len: "length (latencies m) = 100" .
    then have ne: "latencies m \<noteq> []" by auto
    show ?thesis
      using printSummary_p99 [OF assms, of srv] ne by (simp add: s len one_to_hundred_facts)
  qed
  show ?thesis using general shown particular by blast
qed

theorem p99_is_floor_index_witness:
  "length (latencies (zero_metrics\<lparr>latencies := [30, 10, 20]\<rparr>)) \<le> 2 ^ 46
   \<and> p99_latency (fst (printSummary (NewServer 200 (10 * Second))
        (zero_metrics\<lparr>latencies := [30, 10, 20]\<rparr>))) = 30
   \<and> length (latencies (zero_metrics\<lparr>latencies := rev (one_to_hundred 1)\<rparr>)) \<le> 2 ^ 46
   \<and> (0::int) < 1
   \<and> mset (latencies (zero_metrics\<lparr>latencies := rev (one_to_hundred 1)\<rparr>))
        = mset (one_to_hundred 1)
   \<and> p99_latency (fst (printSummary (NewServer 200 (10 * Second))
        (zero_metrics\<lparr>latencies := rev (one_to_hundred 1)\<rparr>))) = 100"
proof -
  have l1: "length (latencies (zero_metrics\<lparr>latencies := [30, 10, 20]\<rparr>)) \<le> 2 ^ 46"
    by simp
  have l2: "length (latencies (zero_metrics\<lparr>latencies := rev (one_to_hundred 1)\<rparr>)) \<le> 2 ^ 46"
    by (simp add: one_to_hundred_facts)
  have m2: "mset (latencies (zero_metrics\<lparr>latencies := rev (one_to_hundred 1)\<rparr>))
        = mset (one_to_hundred 1)"
    by simp
  show ?thesis
    using p99_is_floor_index [OF l1, of "NewServer 200 (10 * Second)" 1]
      p99_is_floor_index [OF l2, of "NewServer 200 (10 * Second)" 1] l1 l2 m2
    by simp
qed

subsection \<open>Time to stable\<close>

lemma recovery_loop_spec:
  "recovery_loop srv downSec (- 1) s = - 1 \<and> (\<forall>s'. s \<le> s' \<and> s' < downSec + 60 \<longrightarrow> \<not> stable_at srv s')
   \<or> (s \<le> downSec + recovery_loop srv downSec (- 1) s
       \<and> recovery_loop srv downSec (- 1) s < 60
       \<and> stable_at srv (downSec + recovery_loop srv downSec (- 1) s)
       \<and> (\<forall>s'. s \<le> s' \<and> s' < downSec + recovery_loop srv downSec (- 1) s \<longrightarrow> \<not> stable_at srv s'))"
proof (induction srv downSec "- 1 :: int" s rule: recovery_loop.induct)
  case (1 srv downSec s)
  show ?case
  proof (cases "s < downSec + 60")
    case False
    then have "recovery_loop srv downSec (- 1) s = - 1"
      by (subst recovery_loop.simps) simp
    with False show ?thesis by auto
  next
    case in_window: True
    show ?thesis
    proof (cases "stable_at srv s")
      case True
      then have "recovery_loop srv downSec (- 1) s = s - downSec"
        using in_window by (subst recovery_loop.simps) (simp add: stable_at_def)
      then show ?thesis using True in_window by auto
    next
      case False
      then have step: "recovery_loop srv downSec (- 1) s = recovery_loop srv downSec (- 1) (s + 1)"
        using in_window by (subst recovery_loop.simps) (auto simp: stable_at_def Let_def)
      have IH: "recovery_loop srv downSec (- 1) (s + 1) = - 1
            \<and> (\<forall>s'. s + 1 \<le> s' \<and> s' < downSec + 60 \<longrightarrow> \<not> stable_at srv s')
          \<or> (s + 1 \<le> downSec + recovery_loop srv downSec (- 1) (s + 1)
             \<and> recovery_loop srv downSec (- 1) (s + 1) < 60
             \<and> stable_at srv (downSec + recovery_loop srv downSec (- 1) (s + 1))
             \<and> (\<forall>s'. s + 1 \<le> s' \<and> s' < downSec + recovery_loop srv downSec (- 1) (s + 1)
                   \<longrightarrow> \<not> stable_at srv s'))"
        using "1.hyps" [OF in_window refl] False by (simp add: stable_at_def)
      have aux: "\<And>s'. s \<le> s' \<Longrightarrow> s' = s \<or> s + 1 \<le> s'" by linarith
      from IH show ?thesis unfolding step using False aux by (elim disjE) (auto)
    qed
  qed
qed

lemma printSummary_time_to_stable:
  "time_to_stable (fst (printSummary srv m))
     = (if recovery_loop srv (seconds_int (downFor srv)) (- 1) (seconds_int (downFor srv)) \<ge> 0
        then Stable (recovery_loop srv (seconds_int (downFor srv)) (- 1) (seconds_int (downFor srv)))
        else Over60)"
  by (simp add: printSummary_def Let_def)

text \<open>
  Claim C9. With \<open>outageSeconds\<close> the outage duration in whole seconds: when the summary
  reports a number \<open>k\<close> for time-to-stable, then \<open>0 \<le> k < 60\<close>, second
  \<open>outageSeconds + k\<close> has requests and no rejection, and no earlier second from
  \<open>outageSeconds\<close> on has; when it reports \<^verbatim>\<open>>60s\<close>, no second of the 60-second window
  has requests and no rejection. In particular, for a server with a 2-second outage,
  capacity 5 and \<open>requests[2] = accepted[2] = 3\<close>, the summary reports 0.
\<close>

theorem time_to_stable_correct:
  "(\<forall>k. time_to_stable (fst (printSummary srv m)) = Stable k \<longrightarrow>
        0 \<le> k \<and> k < 60 \<and> stable_at srv (seconds_int (downFor srv) + k)
        \<and> (\<forall>s. seconds_int (downFor srv) \<le> s \<and> s < seconds_int (downFor srv) + k
               \<longrightarrow> \<not> stable_at srv s))
   \<and> (time_to_stable (fst (printSummary srv m)) = Over60 \<longrightarrow>
        (\<forall>s. seconds_int (downFor srv) \<le> s \<and> s < seconds_int (downFor srv) + 60
               \<longrightarrow> \<not> stable_at srv s))
   \<and> (downFor srv = 2 * Second \<and> capacity srv = 5
        \<and> lookup0 (requests srv) 2 = 3 \<and> lookup0 (accepted srv) 2 = 3 \<longrightarrow>
        time_to_stable (fst (printSummary srv m)) = Stable 0)"
proof -
  define d where "d = seconds_int (downFor srv)"
  define rt where "rt = recovery_loop srv d (- 1) d"
  have tts: "time_to_stable (fst (printSummary srv m)) = (if rt \<ge> 0 then Stable rt else Over60)"
    by (simp add: printSummary_time_to_stable rt_def d_def)
  have spec: "rt = - 1 \<and> (\<forall>s'. d \<le> s' \<and> s' < d + 60 \<longrightarrow> \<not> stable_at srv s')
      \<or> (d \<le> d + rt \<and> rt < 60 \<and> stable_at srv (d + rt)
         \<and> (\<forall>s'. d \<le> s' \<and> s' < d + rt \<longrightarrow> \<not> stable_at srv s'))"
    unfolding rt_def by (rule recovery_loop_spec)
  have first: "\<forall>k. time_to_stable (fst (printSummary srv m)) = Stable k \<longrightarrow>
        0 \<le> k \<and> k < 60 \<and> stable_at srv (d + k)
        \<and> (\<forall>s. d \<le> s \<and> s < d + k \<longrightarrow> \<not> stable_at srv s)"
    using spec by (auto simp: tts split: if_splits)
  have second: "time_to_stable (fst (printSummary srv m)) = Over60 \<longrightarrow>
        (\<forall>s. d \<le> s \<and> s < d + 60 \<longrightarrow> \<not> stable_at srv s)"
    using spec by (auto simp: tts split: if_splits)
  have third: "downFor srv = 2 * Second \<and> capacity srv = 5
        \<and> lookup0 (requests srv) 2 = 3 \<and> lookup0 (accepted srv) 2 = 3 \<longrightarrow>
        time_to_stable (fst (printSummary srv m)) = Stable 0"
  proof (intro impI, elim conjE)
    assume a: "downFor srv = 2 * Second" "lookup0 (requests srv) 2 = 3"
      "lookup0 (accepted srv) 2 = 3"
    have d2: "d = 2" by (simp add: d_def a(1) seconds_int_small Second_def)
    have "rt = 0"
      unfolding rt_def d2 by (subst recovery_loop.simps) (simp add: a)
    then show "time_to_stable (fst (printSummary srv m)) = Stable 0"
      by (simp add: tts)
  qed
  show ?thesis
    using first second third unfolding d_def by blast
qed

theorem time_to_stable_correct_witness:
  "time_to_stable (fst (printSummary
      \<lparr>capacity = 5, downFor = 2 * Second, requests = [(2, 3)], accepted = [(2, 3)]\<rparr>
      zero_metrics)) = Stable 0
   \<and> stable_at \<lparr>capacity = 5, downFor = 2 * Second, requests = [(2, 3)], accepted = [(2, 3)]\<rparr> 2
   \<and> time_to_stable (fst (printSummary
      (run (NewServer 1 (2 * Second)) [0, 1500000000, 2000000000, 2100000000, 3000000000])
      zero_metrics)) = Stable 1
   \<and> \<not> stable_at
      (run (NewServer 1 (2 * Second)) [0, 1500000000, 2000000000, 2100000000, 3000000000]) 2
   \<and> time_to_stable (fst (printSummary (NewServer 5 0) zero_metrics)) = Over60
   \<and> \<not> stable_at (NewServer 5 0) 7"
proof -
  define ex1 where
    "ex1 = \<lparr>capacity = 5, downFor = 2 * Second, requests = [(2, 3)], accepted = [(2, 3)]\<rparr>"
  define ex2 where
    "ex2 = run (NewServer 1 (2 * Second)) [0, 1500000000, 2000000000, 2100000000, 3000000000]"
  have ex2: "ex2 = \<lparr>capacity = 1, downFor = 2000000000,
      requests = [(0, 1), (1, 1), (2, 2), (3, 1)], accepted = [(2, 1), (3, 1)]\<rparr>"
    by (simp add: ex2_def NewServer_def Do_def Let_def lookup0_def incr_def seconds_int_small
        wrap64_def Second_def)
  have pre1: "downFor ex1 = 2 * Second \<and> capacity ex1 = 5
      \<and> lookup0 (requests ex1) 2 = 3 \<and> lookup0 (accepted ex1) 2 = 3"
    by (simp add: ex1_def lookup0_def)
  have t1: "time_to_stable (fst (printSummary ex1 zero_metrics)) = Stable 0"
    using time_to_stable_correct [of ex1 zero_metrics] pre1 by blast
  have s1: "stable_at ex1 2"
    using time_to_stable_correct [of ex1 zero_metrics] t1
    by (simp add: ex1_def seconds_int_small Second_def)
  have d2: "seconds_int (downFor ex2) = 2"
    by (simp add: ex2 seconds_int_small)
  have t2: "time_to_stable (fst (printSummary ex2 zero_metrics)) = Stable 1"
    by (simp add: printSummary_time_to_stable d2)
       (simp add: recovery_loop.simps ex2 lookup0_def)
  have s2: "\<not> stable_at ex2 2"
    using time_to_stable_correct [of ex2 zero_metrics] t2 d2 by simp
  have d3: "seconds_int (downFor (NewServer 5 0)) = 0"
    by (simp add: NewServer_def seconds_int_small)
  have t3: "time_to_stable (fst (printSummary (NewServer 5 0) zero_metrics)) = Over60"
    by (simp add: printSummary_time_to_stable d3)
       (simp add: recovery_loop.simps NewServer_def lookup0_def)
  have s3: "\<not> stable_at (NewServer 5 0) 7"
    using time_to_stable_correct [of "NewServer 5 0" zero_metrics] t3 d3 by simp
  show ?thesis
    using t1 s1 t2 s2 t3 s3 unfolding ex1_def ex2_def by simp
qed

subsection \<open>What reporting changes\<close>

lemma printHistogram_state: "snd (printHistogram srv) = srv"
  by (simp add: printHistogram_def Let_def split: prod.splits sum.splits)

lemma printSummary_state:
  "snd (printSummary srv m) = (srv, m\<lparr>latencies := sort (latencies m)\<rparr>)"
  by (simp add: printSummary_def Let_def)

lemma report_state:
  "snd (report srv m) = (srv, m)
   \<or> snd (report srv m) = (srv, m\<lparr>latencies := sort (latencies m)\<rparr>)"
proof -
  obtain h where ph: "printHistogram srv = (h, srv)"
    using printHistogram_state [of srv] by (cases "printHistogram srv") simp
  obtain sm where ps: "printSummary srv m = (sm, srv, m\<lparr>latencies := sort (latencies m)\<rparr>)"
    using printSummary_state [of srv m] by (cases "printSummary srv m") simp
  show ?thesis
    by (cases h) (simp_all add: report_def ph ps)
qed

text \<open>
  Claim C10, as written, says that reporting leaves the latency collection as it was,
  order included. \<^verbatim>\<open>printSummary\<close> sorts the slice in place: after two clients recorded
  2ms and then 1ms, the collection holds 1ms, 2ms.
\<close>

theorem reporting_sorts_latencies_counterexample:
  "latencies (record_all zero_metrics [(2000000, 0), (1000000, 0)]) = [2000000, 1000000]
   \<and> latencies (snd (snd (printSummary (run (NewServer 5 0) [0, 0])
        (record_all zero_metrics [(2000000, 0), (1000000, 0)])))) = [1000000, 2000000]
   \<and> snd (snd (printSummary (run (NewServer 5 0) [0, 0])
        (record_all zero_metrics [(2000000, 0), (1000000, 0)])))
       \<noteq> record_all zero_metrics [(2000000, 0), (1000000, 0)]"
  by (simp add: printSummary_state Record_def zero_metrics_def wrap64_def)


text \<open>
  Claim C10, amended. Computing the histogram and the summary leaves the server as it
  was (capacity, outage duration and both maps of counters), and leaves the total and
  the wasted count of the metrics as they were. The latency collection keeps its
  elements with their multiplicities, and after the summary it is sorted in ascending
  order.
\<close>

theorem reporting_frame:
  "snd (printHistogram srv) = srv
   \<and> fst (snd (printSummary srv m)) = srv
   \<and> fst (snd (report srv m)) = srv
   \<and> totalRequests (snd (snd (printSummary srv m))) = totalRequests m
   \<and> wastedReqs (snd (snd (printSummary srv m))) = wastedReqs m
   \<and> latencies (snd (snd (printSummary srv m))) = sort (latencies m)
   \<and> mset (latencies (snd (snd (printSummary srv m)))) = mset (latencies m)
   \<and> sorted (latencies (snd (snd (printSummary srv m))))
   \<and> totalRequests (snd (snd (report srv m))) = totalRequests m
   \<and> wastedReqs (snd (snd (report srv m))) = wastedReqs m
   \<and> mset (latencies (snd (snd (report srv m)))) = mset (latencies m)"
  using report_state [of srv m]
  by (auto simp: printHistogram_state printSummary_state)


end
